theory Spec2Isabelle
  imports Complex_Main
begin

section \<open>Python strings and lists\<close>

text \<open>
  A Python \<open>str\<close> is a sequence of Unicode code points. It is modelled as a list of
  natural numbers, one per code point, so that \<open>len\<close> is \<open>length\<close>. A literal of
  the source is written \<open>ustr ''...''\<close>.
\<close>

type_synonym pystr = "nat list"

definition ustr :: "string \<Rightarrow> pystr" where
  "ustr s = map of_char s"

text \<open>
  The characters \<open>str.split()\<close> treats as separators (\<open>str.isspace\<close> on one
  character): the ASCII controls 9 to 13 and 28 to 31, the space, NEL, the no-break
  space and the Unicode space separators.
\<close>

definition isspace :: "nat \<Rightarrow> bool" where
  "isspace c \<longleftrightarrow>
     (9 \<le> c \<and> c \<le> 13) \<or> (28 \<le> c \<and> c \<le> 32) \<or> c = 133 \<or> c = 160 \<or> c = 5760 \<or>
     (8192 \<le> c \<and> c \<le> 8202) \<or> c = 8232 \<or> c = 8233 \<or> c = 8239 \<or> c = 8287 \<or>
     c = 12288"

text \<open>
  \<open>text.split()\<close> with no argument: skip a run of whitespace, stop at the end of the
  string, otherwise take the maximal run of other characters as the next word and go on
  behind it. No word is empty, and leading and trailing whitespace yield no word.
\<close>

function split :: "pystr \<Rightarrow> pystr list" where
  "split s =
     (case dropWhile isspace s of
        [] \<Rightarrow> []
      | c # cs \<Rightarrow>
          takeWhile (\<lambda>x. \<not> isspace x) (c # cs) #
          split (dropWhile (\<lambda>x. \<not> isspace x) (c # cs)))"
  by pat_completeness auto
termination
proof (relation "measure length", goal_cases)
  case 1
  show ?case by simp
next
  case (2 s c cs)
  have "\<not> isspace c"
    using hd_dropWhile [of isspace s] 2 by simp
  then have "length (dropWhile (\<lambda>x. \<not> isspace x) (c # cs)) \<le> length cs"
    by (simp add: length_dropWhile_le)
  also have "length cs < length (dropWhile isspace s)"
    using 2 by simp
  also have "\<dots> \<le> length s"
    by (rule length_dropWhile_le)
  finally show ?case by simp
qed

declare split.simps [simp del]

text \<open>\<open>sep.join(xs)\<close> for a list of strings.\<close>

fun join :: "pystr \<Rightarrow> pystr list \<Rightarrow> pystr" where
  "join sep [] = []"
| "join sep [x] = x"
| "join sep (x # y # ys) = x @ sep @ join sep (y # ys)"

text \<open>
  \<open>xs[lo:hi]\<close>: a negative bound counts from the end, both bounds are clamped to the
  list, and an empty range gives the empty list.
\<close>

definition slice_bound :: "nat \<Rightarrow> int \<Rightarrow> nat" where
  "slice_bound n i = (if i < 0 then nat (int n + i) else min n (nat i))"

definition slice :: "'a list \<Rightarrow> int \<Rightarrow> int \<Rightarrow> 'a list" where
  "slice xs lo hi =
     (let a = slice_bound (length xs) lo; b = slice_bound (length xs) hi
      in take (b - a) (drop a xs))"

section \<open>Exceptions\<close>

text \<open>
  What a function of the program can raise. \<open>HTTPException\<close> carries its status code
  and detail; \<open>External\<close> stands for whatever a collaborator (document loader,
  embedding model, vector index, HTTP client) raised, with its message. Every one of
  them is a subclass of Python's \<open>Exception\<close>, FastAPI's \<open>HTTPException\<close>
  included, so \<open>except Exception\<close> catches each.
\<close>

datatype exn =
    ValueError
  | TypeError
  | KeyError
  | IndexError
  | AttributeError
  | OverflowError
  | JSONDecodeError
  | UnicodeEncodeError
  | External pystr
  | HTTPException int pystr

section \<open>The chunker\<close>

text \<open>
  \<open>range(start, stop, step)\<close> as the list of its elements; a zero step raises
  \<open>ValueError\<close>.
\<close>

function range_list :: "int \<Rightarrow> int \<Rightarrow> int \<Rightarrow> int list" where
  "range_list i stop step =
     (if (0 < step \<and> i < stop) \<or> (step < 0 \<and> stop < i)
      then i # range_list (i + step) stop step
      else [])"
  by pat_completeness auto
termination
  by (relation "measure (\<lambda>(i, stop, step). nat (if 0 < step then stop - i else i - stop))")
    auto

declare range_list.simps [simp del]

definition range3 :: "int \<Rightarrow> int \<Rightarrow> int \<Rightarrow> exn + int list" where
  "range3 start stop step =
     (if step = 0 then Inl ValueError else Inr (range_list start stop step))"

text \<open>
  The body of the \<open>for\<close> loop of \<open>chunk_text\<close>, run over the indices of the range:
  each iteration appends one chunk to \<open>chunks\<close>.
\<close>

fun chunk_loop :: "pystr list \<Rightarrow> int \<Rightarrow> int list \<Rightarrow> pystr list \<Rightarrow> pystr list" where
  "chunk_loop words chunk_size [] chunks = chunks"
| "chunk_loop words chunk_size (i # is) chunks =
     chunk_loop words chunk_size is
       (chunks @ [join (ustr '' '') (slice words i (i + chunk_size))])"

definition chunk_text :: "pystr \<Rightarrow> int \<Rightarrow> exn + pystr list" where
  "chunk_text text chunk_size =
     (let words = split text in
      case range3 0 (int (length words)) (chunk_size div 2) of
        Inl e \<Rightarrow> Inl e
      | Inr is \<Rightarrow> Inr (chunk_loop words chunk_size is []))"

text \<open>
  Helpers for stating what the chunker computes: the windows of \<open>wsize\<close> words that
  start at every \<open>step\<close>-th word, and what a word of \<open>split\<close> looks like.
\<close>

definition windows :: "'a list \<Rightarrow> nat \<Rightarrow> nat \<Rightarrow> 'a list list" where
  "windows words wsize step =
     map (\<lambda>k. take wsize (drop (k * step) words)) [0 ..< (length words + step - 1) div step]"

definition wordlike :: "pystr \<Rightarrow> bool" where
  "wordlike w \<longleftrightarrow> w \<noteq> [] \<and> (\<forall>c\<in>set w. \<not> isspace c)"

section \<open>Python values\<close>

text \<open>
  The values the endpoints handle: what \<open>request.json()\<close> decodes and what the
  handlers build. The numbers are a type parameter \<open>'n\<close> that comes with its
  operations; section \<open>Python numbers\<close> gives Python's \<open>int\<close> and \<open>float\<close>, which
  the aggregation endpoints are stated for. A dictionary is an association list in
  insertion order with distinct keys.
\<close>

datatype 'n pyval =
    PNone
  | PBool bool
  | PNum 'n
  | PStr pystr
  | PList "'n pyval list"
  | PDict "('n pyval \<times> 'n pyval) list"

record 'n num_ops =
  num_zero :: 'n
  num_add :: "'n \<Rightarrow> 'n \<Rightarrow> exn + 'n"
  num_truthy :: "'n \<Rightarrow> bool"
  num_eq :: "'n \<Rightarrow> 'n \<Rightarrow> bool"
  num_of_bool :: "bool \<Rightarrow> 'n"
  num_finite :: "'n \<Rightarrow> bool"
  float_of_num :: "'n \<Rightarrow> exn + 'n"
  float_of_bool :: "bool \<Rightarrow> 'n"
  float_of_str :: "pystr \<Rightarrow> exn + 'n"

text \<open>
  \<open>num_zero\<close> is the integer literal \<open>0\<close>, \<open>num_add\<close> is \<open>+\<close> on two numbers
  (\<open>OverflowError\<close> when an integer operand is too large for a float),
  \<open>num_truthy\<close> is \<open>bool(x)\<close>, \<open>num_eq\<close> is \<open>==\<close> on two numbers, \<open>num_of_bool\<close>
  is the integer a \<open>bool\<close> is (\<open>True == 1\<close>), \<open>num_finite\<close> says that a number is
  neither infinite nor a NaN, and the last three are \<open>float(x)\<close> on a number
  (\<open>OverflowError\<close> on an integer too large), on a \<open>bool\<close> and on a string
  (\<open>ValueError\<close> when it does not parse). Section \<open>Python numbers\<close> gives the
  instance that is Python's \<open>int\<close> and \<open>float\<close>.
\<close>

definition truthy :: "('n, 'z) num_ops_scheme \<Rightarrow> 'n pyval \<Rightarrow> bool" where
  "truthy ops v =
     (case v of
        PNone \<Rightarrow> False
      | PBool b \<Rightarrow> b
      | PNum n \<Rightarrow> num_truthy ops n
      | PStr s \<Rightarrow> s \<noteq> []
      | PList xs \<Rightarrow> xs \<noteq> []
      | PDict d \<Rightarrow> d \<noteq> [])"

text \<open>Lists and dictionaries are unhashable: using one as a dictionary key raises.\<close>

definition hashable :: "'n pyval \<Rightarrow> bool" where
  "hashable v = (case v of PList xs \<Rightarrow> False | PDict d \<Rightarrow> False | _ \<Rightarrow> True)"

text \<open>
  When two keys of a dictionary are the same key: Python compares them with \<open>==\<close>.
  A \<open>bool\<close> is the integer 0 or 1 and numbers compare by \<open>num_eq\<close>, so \<open>1\<close>,
  \<open>1.0\<close> and \<open>True\<close> are one key; a string is equal to the same string only, and
  \<open>None\<close> to \<open>None\<close> only. (That a dictionary also finds a key by object identity,
  which matters for a NaN only, is not modelled.)
\<close>

definition key_num :: "('n, 'z) num_ops_scheme \<Rightarrow> 'n pyval \<Rightarrow> 'n option" where
  "key_num ops k =
     (case k of PBool b \<Rightarrow> Some (num_of_bool ops b) | PNum n \<Rightarrow> Some n | _ \<Rightarrow> None)"

definition key_eq :: "('n, 'z) num_ops_scheme \<Rightarrow> 'n pyval \<Rightarrow> 'n pyval \<Rightarrow> bool" where
  "key_eq ops a b =
     (case key_num ops a of
        Some x \<Rightarrow> (case key_num ops b of Some y \<Rightarrow> num_eq ops x y | None \<Rightarrow> False)
      | None \<Rightarrow> (case key_num ops b of Some y \<Rightarrow> False | None \<Rightarrow> a = b))"

text \<open>
  The entry of a dictionary under a key, and \<open>d[k] = v\<close> on the entries: the value of
  an entry with an equal key is replaced, the entry keeping its own key and its place;
  a new key is added at the end.
\<close>

fun dict_lookup :: "('n, 'z) num_ops_scheme \<Rightarrow> ('n pyval \<times> 'a) list \<Rightarrow> 'n pyval \<Rightarrow> 'a option" where
  "dict_lookup ops [] k = None"
| "dict_lookup ops ((k', v') # d) k =
     (if key_eq ops k' k then Some v' else dict_lookup ops d k)"

fun dict_update ::
  "('n, 'z) num_ops_scheme \<Rightarrow> ('n pyval \<times> 'a) list \<Rightarrow> 'n pyval \<Rightarrow> 'a \<Rightarrow> ('n pyval \<times> 'a) list" where
  "dict_update ops [] k v = [(k, v)]"
| "dict_update ops ((k', v') # d) k v =
     (if key_eq ops k' k then (k', v) # d else (k', v') # dict_update ops d k v)"

text \<open>\<open>d.get(k, default)\<close> and \<open>d[k] = v\<close>; an unhashable key raises.\<close>

definition dict_get ::
  "('n, 'z) num_ops_scheme \<Rightarrow> ('n pyval \<times> 'a) list \<Rightarrow> 'n pyval \<Rightarrow> 'a \<Rightarrow> exn + 'a" where
  "dict_get ops d k dflt =
     (if \<not> hashable k then Inl TypeError
      else case dict_lookup ops d k of None \<Rightarrow> Inr dflt | Some v \<Rightarrow> Inr v)"

definition dict_set ::
  "('n, 'z) num_ops_scheme \<Rightarrow> ('n pyval \<times> 'a) list \<Rightarrow> 'n pyval \<Rightarrow> 'a \<Rightarrow>
   exn + ('n pyval \<times> 'a) list" where
  "dict_set ops d k v = (if \<not> hashable k then Inl TypeError else Inr (dict_update ops d k v))"

text \<open>\<open>obj.get(k, default)\<close>: only a dictionary has the method.\<close>

definition py_get ::
  "('n, 'z) num_ops_scheme \<Rightarrow> 'n pyval \<Rightarrow> 'n pyval \<Rightarrow> 'n pyval \<Rightarrow> exn + 'n pyval" where
  "py_get ops obj k dflt =
     (case obj of PDict d \<Rightarrow> dict_get ops d k dflt | _ \<Rightarrow> Inl AttributeError)"

text \<open>\<open>obj[key]\<close> with a string key.\<close>

definition py_getitem_str :: "'n pyval \<Rightarrow> pystr \<Rightarrow> exn + 'n pyval" where
  "py_getitem_str obj k =
     (case obj of
        PDict d \<Rightarrow> (case map_of d (PStr k) of None \<Rightarrow> Inl KeyError | Some v \<Rightarrow> Inr v)
      | _ \<Rightarrow> Inl TypeError)"

text \<open>\<open>obj[0]\<close>.\<close>

definition py_getitem_zero :: "('n, 'z) num_ops_scheme \<Rightarrow> 'n pyval \<Rightarrow> exn + 'n pyval" where
  "py_getitem_zero ops obj =
     (case obj of
        PList xs \<Rightarrow> (case xs of [] \<Rightarrow> Inl IndexError | x # _ \<Rightarrow> Inr x)
      | PStr s \<Rightarrow> (case s of [] \<Rightarrow> Inl IndexError | c # _ \<Rightarrow> Inr (PStr [c]))
      | PDict d \<Rightarrow>
          (case dict_lookup ops d (PNum (num_zero ops)) of
             None \<Rightarrow> Inl KeyError
           | Some v \<Rightarrow> Inr v)
      | _ \<Rightarrow> Inl TypeError)"

text \<open>What \<open>for item in obj\<close> runs over.\<close>

definition py_iter :: "'n pyval \<Rightarrow> exn + 'n pyval list" where
  "py_iter obj =
     (case obj of
        PList xs \<Rightarrow> Inr xs
      | PDict d \<Rightarrow> Inr (map fst d)
      | PStr s \<Rightarrow> Inr (map (\<lambda>c. PStr [c]) s)
      | _ \<Rightarrow> Inl TypeError)"

text \<open>\<open>float(v)\<close>.\<close>

definition py_float :: "('n, 'z) num_ops_scheme \<Rightarrow> 'n pyval \<Rightarrow> exn + 'n" where
  "py_float ops v =
     (case v of
        PNum n \<Rightarrow> float_of_num ops n
      | PBool b \<Rightarrow> Inr (float_of_bool ops b)
      | PStr s \<Rightarrow> float_of_str ops s
      | _ \<Rightarrow> Inl TypeError)"

text \<open>\<open>sep.join(xs)\<close> on values: every element must be a string.\<close>

fun strs_of :: "'n pyval list \<Rightarrow> exn + pystr list" where
  "strs_of [] = Inr []"
| "strs_of (v # vs) =
     (case v of
        PStr s \<Rightarrow> (case strs_of vs of Inl e \<Rightarrow> Inl e | Inr ss \<Rightarrow> Inr (s # ss))
      | _ \<Rightarrow> Inl TypeError)"

definition py_join :: "pystr \<Rightarrow> 'n pyval list \<Rightarrow> exn + pystr" where
  "py_join sep vs = (case strs_of vs of Inl e \<Rightarrow> Inl e | Inr ss \<Rightarrow> Inr (join sep ss))"

text \<open>\<open>str(i)\<close> for a non-negative integer.\<close>

function decimal :: "nat \<Rightarrow> pystr" where
  "decimal n = (if n < 10 then [48 + n] else decimal (n div 10) @ [48 + n mod 10])"
  by pat_completeness auto
termination
  by (relation "measure id") auto

declare decimal.simps [simp del]

section \<open>Responses\<close>

text \<open>
  \<open>JSONResponse(content, status_code)\<close> renders its content when it is built, with
  \<open>json.dumps(content, allow_nan=False, ...).encode("utf-8")\<close>, and both steps can
  raise.

  \<open>json.dumps\<close> walks the content in order and raises at the first number that is
  not finite (\<open>ValueError\<close>) or the first dictionary key that is not a string, a
  number, a \<open>bool\<close> or \<open>None\<close> (\<open>TypeError\<close>).
\<close>

definition key_error :: "('n, 'z) num_ops_scheme \<Rightarrow> 'n pyval \<Rightarrow> exn option" where
  "key_error ops k =
     (case k of
        PNone \<Rightarrow> None
      | PBool b \<Rightarrow> None
      | PNum n \<Rightarrow> (if num_finite ops n then None else Some ValueError)
      | PStr s \<Rightarrow> None
      | _ \<Rightarrow> Some TypeError)"

fun dumps_error :: "('n, 'z) num_ops_scheme \<Rightarrow> 'n pyval \<Rightarrow> exn option"
  and dumps_error_list :: "('n, 'z) num_ops_scheme \<Rightarrow> 'n pyval list \<Rightarrow> exn option"
  and dumps_error_items ::
    "('n, 'z) num_ops_scheme \<Rightarrow> ('n pyval \<times> 'n pyval) list \<Rightarrow> exn option" where
  "dumps_error ops PNone = None"
| "dumps_error ops (PBool b) = None"
| "dumps_error ops (PNum n) = (if num_finite ops n then None else Some ValueError)"
| "dumps_error ops (PStr s) = None"
| "dumps_error ops (PList xs) = dumps_error_list ops xs"
| "dumps_error ops (PDict d) = dumps_error_items ops d"
| "dumps_error_list ops [] = None"
| "dumps_error_list ops (x # xs) =
     (case dumps_error ops x of Some e \<Rightarrow> Some e | None \<Rightarrow> dumps_error_list ops xs)"
| "dumps_error_items ops [] = None"
| "dumps_error_items ops (p # d) =
     (case key_error ops (fst p) of
        Some e \<Rightarrow> Some e
      | None \<Rightarrow>
          (case dumps_error ops (snd p) of
             Some e \<Rightarrow> Some e
           | None \<Rightarrow> dumps_error_items ops d))"

text \<open>
  The text \<open>json.dumps\<close> returns is encoded as UTF-8, which raises
  \<open>UnicodeEncodeError\<close> when a string of the content holds a surrogate code point.
\<close>

definition utf8_str :: "pystr \<Rightarrow> bool" where
  "utf8_str s = list_all (\<lambda>c. \<not> (55296 \<le> c \<and> c \<le> 57343)) s"

definition utf8_key :: "'n pyval \<Rightarrow> bool" where
  "utf8_key k = (case k of PStr s \<Rightarrow> utf8_str s | _ \<Rightarrow> True)"

fun utf8_value :: "'n pyval \<Rightarrow> bool"
  and utf8_list :: "'n pyval list \<Rightarrow> bool"
  and utf8_items :: "('n pyval \<times> 'n pyval) list \<Rightarrow> bool" where
  "utf8_value PNone = True"
| "utf8_value (PBool b) = True"
| "utf8_value (PNum n) = True"
| "utf8_value (PStr s) = utf8_str s"
| "utf8_value (PList xs) = utf8_list xs"
| "utf8_value (PDict d) = utf8_items d"
| "utf8_list [] = True"
| "utf8_list (x # xs) = (utf8_value x \<and> utf8_list xs)"
| "utf8_items [] = True"
| "utf8_items (p # d) = (utf8_key (fst p) \<and> utf8_value (snd p) \<and> utf8_items d)"

text \<open>
  A handler returns a response or raises; the framework answers a raised
  \<open>HTTPException\<close> with its status code and any other exception with 500.
\<close>

record 'n response =
  content :: "'n pyval"
  status_code :: int

definition JSONResponse ::
  "('n, 'z) num_ops_scheme \<Rightarrow> 'n pyval \<Rightarrow> int \<Rightarrow> exn + 'n response" where
  "JSONResponse ops c st =
     (case dumps_error ops c of
        Some e \<Rightarrow> Inl e
      | None \<Rightarrow>
          if utf8_value c then Inr \<lparr>content = c, status_code = st\<rparr>
          else Inl UnicodeEncodeError)"

definition http_status :: "exn + 'n response \<Rightarrow> int" where
  "http_status r =
     (case r of
        Inr resp \<Rightarrow> status_code resp
      | Inl (HTTPException st detail) \<Rightarrow> st
      | Inl _ \<Rightarrow> 500)"

section \<open>Collaborators\<close>

text \<open>
  The services the program calls are parameters of the model. \<open>'v\<close> is an embedding
  vector, \<open>'s\<close> the state of the vector index.
  \<^item> \<open>encode\<close>: the sentence-embedding model on a list of texts, one vector per text.
  \<^item> \<open>index_query\<close>: \<open>index.query(vector, top_k, include_metadata=True)\<close>.
  \<^item> \<open>index_upsert\<close>: \<open>index.upsert(records)\<close> on records (id, vector, metadata); a call
    that raises leaves the index as it was.
  \<^item> \<open>load_documents\<close>: the page contents \<open>OneDriveLoader(...).load()\<close> returns for a
    drive id and an object id.
  \<^item> \<open>http_post\<close>: \<open>requests.post(url, json, headers)\<close>.
  \<^item> \<open>gemini_api_key\<close>: the environment's \<open>GEMINI_API_KEY\<close>, if set.
  \<^item> \<open>format_value\<close>: how an f-string renders a value that is not a string.
  \<^item> \<open>str_exn\<close>: \<open>str(e)\<close> of an exception.
\<close>

record 'n http_response =
  resp_status_code :: int
  resp_text :: pystr
  resp_json :: "exn + 'n pyval"

record ('n, 'v, 's) env = "'n num_ops" +
  encode :: "pystr list \<Rightarrow> exn + 'v list"
  index_query :: "'s \<Rightarrow> 'v list \<Rightarrow> int \<Rightarrow> exn + 'n pyval"
  index_upsert :: "'s \<Rightarrow> (pystr \<times> 'v \<times> 'n pyval) list \<Rightarrow> exn + 's"
  load_documents :: "'n pyval \<Rightarrow> 'n pyval \<Rightarrow> exn + pystr list"
  http_post :: "pystr \<Rightarrow> 'n pyval \<Rightarrow> 'n pyval \<Rightarrow> exn + 'n http_response"
  gemini_api_key :: "pystr option"
  format_value :: "'n pyval \<Rightarrow> pystr"
  str_exn :: "exn \<Rightarrow> pystr"

definition py_format :: "('n, 'v, 's) env \<Rightarrow> 'n pyval \<Rightarrow> pystr" where
  "py_format env v = (case v of PStr s \<Rightarrow> s | _ \<Rightarrow> format_value env v)"

section \<open>The retriever\<close>

text \<open>The comprehension \<open>[match["metadata"]["text"] for match in matches]\<close>.\<close>

fun retrieved_texts :: "'n pyval list \<Rightarrow> exn + 'n pyval list" where
  "retrieved_texts [] = Inr []"
| "retrieved_texts (match # matches) =
     (case py_getitem_str match (ustr ''metadata'') of
        Inl e \<Rightarrow> Inl e
      | Inr metadata \<Rightarrow>
          (case py_getitem_str metadata (ustr ''text'') of
             Inl e \<Rightarrow> Inl e
           | Inr t \<Rightarrow>
               (case retrieved_texts matches of
                  Inl e \<Rightarrow> Inl e
                | Inr ts \<Rightarrow> Inr (t # ts))))"

definition retrieve_similar_chunks ::
  "('n, 'v, 's) env \<Rightarrow> 's \<Rightarrow> pystr \<Rightarrow> int \<Rightarrow> exn + pystr" where
  "retrieve_similar_chunks env idx query top_k =
     (case encode env [query] of
        Inl e \<Rightarrow> Inl e
      | Inr query_embedding \<Rightarrow>
          (case index_query env idx query_embedding top_k of
             Inl e \<Rightarrow> Inl e
           | Inr results \<Rightarrow>
               (case py_get env results (PStr (ustr ''matches'')) (PList []) of
                  Inl e \<Rightarrow> Inl e
                | Inr matches \<Rightarrow>
                    (case py_iter matches of
                       Inl e \<Rightarrow> Inl e
                     | Inr ms \<Rightarrow>
                         (case retrieved_texts ms of
                            Inl e \<Rightarrow> Inl e
                          | Inr ts \<Rightarrow> py_join [10] ts)))))"

section \<open>The answer composer\<close>

definition gemini_url :: "('n, 'v, 's) env \<Rightarrow> pystr" where
  "gemini_url env =
     ustr ''https://generativelanguage.googleapis.com/v1beta/models/gemini-2.0-flash:generateContent?key='' @
     (case gemini_api_key env of None \<Rightarrow> ustr ''None'' | Some k \<Rightarrow> k)"

definition gemini_prompt :: "pystr \<Rightarrow> pystr \<Rightarrow> pystr" where
  "gemini_prompt query ctxt =
     ustr ''Give an overall answer for the following context:'' @ [10] @ ctxt @ [10, 10] @
     ustr ''User Question: '' @ query @
     ustr ''. if there is not context in the document written '' @ [39] @
     ustr ''No answer found'' @ [39]"

definition gemini_payload :: "pystr \<Rightarrow> pystr \<Rightarrow> 'n pyval" where
  "gemini_payload query ctxt =
     PDict [(PStr (ustr ''contents''),
       PList [PDict [(PStr (ustr ''parts''),
         PList [PDict [(PStr (ustr ''text''), PStr (gemini_prompt query ctxt))]])]])]"

text \<open>\<open>response.json()["candidates"][0]["content"]["parts"][0]["text"]\<close>.\<close>

definition gemini_answer :: "('n, 'z) num_ops_scheme \<Rightarrow> 'n http_response \<Rightarrow> exn + 'n pyval" where
  "gemini_answer ops response =
     (case resp_json response of Inl e \<Rightarrow> Inl e | Inr j \<Rightarrow>
      case py_getitem_str j (ustr ''candidates'') of Inl e \<Rightarrow> Inl e | Inr cands \<Rightarrow>
      case py_getitem_zero ops cands of Inl e \<Rightarrow> Inl e | Inr cand \<Rightarrow>
      case py_getitem_str cand (ustr ''content'') of Inl e \<Rightarrow> Inl e | Inr c \<Rightarrow>
      case py_getitem_str c (ustr ''parts'') of Inl e \<Rightarrow> Inl e | Inr parts \<Rightarrow>
      case py_getitem_zero ops parts of Inl e \<Rightarrow> Inl e | Inr part \<Rightarrow>
      py_getitem_str part (ustr ''text''))"

definition query_gemini :: "('n, 'v, 's) env \<Rightarrow> pystr \<Rightarrow> pystr \<Rightarrow> exn + 'n pyval" where
  "query_gemini env query ctxt =
     (case http_post env (gemini_url env) (gemini_payload query ctxt)
             (PDict [(PStr (ustr ''Content-Type''), PStr (ustr ''application/json''))]) of
        Inl e \<Rightarrow> Inl e
      | Inr response \<Rightarrow>
          if resp_status_code response = 200 then gemini_answer env response
          else Inr (PStr (ustr ''Error: '' @ resp_text response)))"

section \<open>Ingestion\<close>

definition embed_text :: "('n, 'v, 's) env \<Rightarrow> pystr list \<Rightarrow> exn + 'v list" where
  "embed_text env text_chunks = encode env text_chunks"

text \<open>
  The upsert loop over \<open>enumerate(zip(text_chunks, embeddings))\<close>: one call of
  \<open>index.upsert\<close> per chunk, in order. The result is the index after the loop and the
  exception that ended it, if any.
\<close>

definition chunk_record :: "('n, 'v, 's) env \<Rightarrow> 'n pyval \<Rightarrow> nat \<times> pystr \<times> 'v \<Rightarrow> pystr \<times> 'v \<times> 'n pyval" where
  "chunk_record env object_id p =
     (case p of (i, chunk, embedding) \<Rightarrow>
        (py_format env object_id @ ustr ''_'' @ decimal i, embedding,
         PDict [(PStr (ustr ''text''), PStr chunk)]))"

fun upsert_loop ::
  "('n, 'v, 's) env \<Rightarrow> 'n pyval \<Rightarrow> 's \<Rightarrow> (nat \<times> pystr \<times> 'v) list \<Rightarrow> 's \<times> exn option" where
  "upsert_loop env object_id idx [] = (idx, None)"
| "upsert_loop env object_id idx (p # ps) =
     (case index_upsert env idx [chunk_record env object_id p] of
        Inl e \<Rightarrow> (idx, Some e)
      | Inr idx' \<Rightarrow> upsert_loop env object_id idx' ps)"

text \<open>
  The body of the \<open>try\<close> block of \<open>process_onedrive_document\<close>. The request is the
  decoded body, or \<open>None\<close> when the body is not JSON and \<open>request.json()\<close> raises.
\<close>

definition ingest ::
  "('n, 'v, 's) env \<Rightarrow> 's \<Rightarrow> 'n pyval option \<Rightarrow> 's \<times> (exn + 'n response)" where
  "ingest env idx request =
     (case request of None \<Rightarrow> (idx, Inl JSONDecodeError) | Some req_body \<Rightarrow>
      case py_get env req_body (PStr (ustr ''drive_id'')) PNone of Inl e \<Rightarrow> (idx, Inl e) | Inr drive_id \<Rightarrow>
      case py_get env req_body (PStr (ustr ''object_id'')) PNone of Inl e \<Rightarrow> (idx, Inl e) | Inr object_id \<Rightarrow>
      if \<not> truthy env drive_id \<or> \<not> truthy env object_id
      then (idx, Inl (HTTPException 400
              (ustr ''Missing '' @ [39] @ ustr ''drive_id'' @ [39] @ ustr '' or '' @ [39] @
               ustr ''object_id'' @ [39] @ ustr '' in the request body.'')))
      else
      case load_documents env drive_id object_id of Inl e \<Rightarrow> (idx, Inl e) | Inr pages \<Rightarrow>
      case chunk_text (join (ustr '' '') pages) 500 of Inl e \<Rightarrow> (idx, Inl e) | Inr text_chunks \<Rightarrow>
      case embed_text env text_chunks of Inl e \<Rightarrow> (idx, Inl e) | Inr embeddings \<Rightarrow>
      case upsert_loop env object_id idx (enumerate 0 (zip text_chunks embeddings)) of
        (idx', Some e) \<Rightarrow> (idx', Inl e)
      | (idx', None) \<Rightarrow>
          (idx', JSONResponse env
             (PDict [(PStr (ustr ''message''),
                PStr (ustr ''Document processed and embeddings stored successfully.''))])
             200))"

text \<open>
  The handler: whatever the \<open>try\<close> block raises is caught by \<open>except Exception\<close> and
  raised again as an \<open>HTTPException\<close> with status 500.
\<close>

definition process_onedrive_document ::
  "('n, 'v, 's) env \<Rightarrow> 's \<Rightarrow> 'n pyval option \<Rightarrow> 's \<times> (exn + 'n response)" where
  "process_onedrive_document env idx request =
     (case ingest env idx request of
        (idx', Inl e) \<Rightarrow>
          (idx', Inl (HTTPException 500 (ustr ''Internal Server Error: '' @ str_exn env e)))
      | (idx', Inr r) \<Rightarrow> (idx', Inr r))"

section \<open>The aggregation endpoints\<close>

text \<open>
  \<open>exec_duration\<close>: \<open>float(item.get("execution duration", 0))\<close>, or \<open>0\<close> when that
  raises.
\<close>

definition exec_duration :: "('n, 'z) num_ops_scheme \<Rightarrow> 'n pyval \<Rightarrow> 'n" where
  "exec_duration ops item =
     (case py_get ops item (PStr (ustr ''execution duration'')) (PNum (num_zero ops)) of
        Inl e \<Rightarrow> num_zero ops
      | Inr v \<Rightarrow> (case py_float ops v of Inl e \<Rightarrow> num_zero ops | Inr x \<Rightarrow> x))"

text \<open>
  The last statement of both loops:
  \<open>duration_map[app_name] = duration_map.get(app_name, 0) + exec_duration\<close>.
\<close>

definition accumulate ::
  "('n, 'z) num_ops_scheme \<Rightarrow> ('n pyval \<times> 'n) list \<Rightarrow> 'n pyval \<Rightarrow> 'n \<Rightarrow>
   exn + ('n pyval \<times> 'n) list" where
  "accumulate ops duration_map app_name duration =
     (case dict_get ops duration_map app_name (num_zero ops) of
        Inl e \<Rightarrow> Inl e
      | Inr cur \<Rightarrow>
          (case num_add ops cur duration of
             Inl e \<Rightarrow> Inl e
           | Inr new \<Rightarrow> dict_set ops duration_map app_name new))"

text \<open>One iteration of the loop of \<open>datatransformation\<close> on \<open>duration_map\<close>.\<close>

definition transform_step ::
  "('n, 'z) num_ops_scheme \<Rightarrow> ('n pyval \<times> 'n) list \<Rightarrow> 'n pyval \<Rightarrow> exn + ('n pyval \<times> 'n) list" where
  "transform_step ops duration_map item =
     (case py_get ops item (PStr (ustr ''application name'')) (PStr []) of
        Inl e \<Rightarrow> Inl e
      | Inr app_name \<Rightarrow> accumulate ops duration_map app_name (exec_duration ops item))"

fun transform_loop ::
  "('n, 'z) num_ops_scheme \<Rightarrow> ('n pyval \<times> 'n) list \<Rightarrow> 'n pyval list \<Rightarrow> exn + ('n pyval \<times> 'n) list" where
  "transform_loop ops duration_map [] = Inr duration_map"
| "transform_loop ops duration_map (item # items) =
     (case transform_step ops duration_map item of
        Inl e \<Rightarrow> Inl e
      | Inr duration_map' \<Rightarrow> transform_loop ops duration_map' items)"

definition processed_data :: "('n pyval \<times> 'n) list \<Rightarrow> 'n pyval" where
  "processed_data duration_map =
     PList (map (\<lambda>(app_name, total_duration).
        PDict [(PStr (ustr ''application name''), app_name),
               (PStr (ustr ''execution duration''), PNum total_duration)]) duration_map)"

definition datatransformation ::
  "('n, 'z) num_ops_scheme \<Rightarrow> 'n pyval option \<Rightarrow> exn + 'n response" where
  "datatransformation ops request =
     (case request of
        None \<Rightarrow> Inl (HTTPException 400 (ustr ''Invalid JSON in request body''))
      | Some req_body \<Rightarrow>
          (case py_get ops req_body (PStr (ustr ''body'')) (PList []) of
             Inl e \<Rightarrow> Inl e
           | Inr records \<Rightarrow>
               (case py_iter records of
                  Inl e \<Rightarrow> Inl e
                | Inr items \<Rightarrow>
                    (case transform_loop ops [] items of
                       Inl e \<Rightarrow> Inl e
                     | Inr duration_map \<Rightarrow>
                         JSONResponse ops
                           (PDict [(PStr (ustr ''records''), processed_data duration_map)])
                           200))))"

text \<open>
  One iteration of the loop of \<open>datatransformation_summary\<close>: the same, but the
  dictionary is only touched \<open>if app_name\<close>.
\<close>

definition summary_step ::
  "('n, 'z) num_ops_scheme \<Rightarrow> ('n pyval \<times> 'n) list \<Rightarrow> 'n pyval \<Rightarrow> exn + ('n pyval \<times> 'n) list" where
  "summary_step ops duration_map item =
     (case py_get ops item (PStr (ustr ''application name'')) (PStr []) of
        Inl e \<Rightarrow> Inl e
      | Inr app_name \<Rightarrow>
          if truthy ops app_name
          then accumulate ops duration_map app_name (exec_duration ops item)
          else Inr duration_map)"

fun summary_loop ::
  "('n, 'z) num_ops_scheme \<Rightarrow> ('n pyval \<times> 'n) list \<Rightarrow> 'n pyval list \<Rightarrow> exn + ('n pyval \<times> 'n) list" where
  "summary_loop ops duration_map [] = Inr duration_map"
| "summary_loop ops duration_map (item # items) =
     (case summary_step ops duration_map item of
        Inl e \<Rightarrow> Inl e
      | Inr duration_map' \<Rightarrow> summary_loop ops duration_map' items)"

definition summary_content :: "('n pyval \<times> 'n) list \<Rightarrow> 'n pyval" where
  "summary_content duration_map = PDict (map (\<lambda>(k, v). (k, PNum v)) duration_map)"

definition datatransformation_summary ::
  "('n, 'z) num_ops_scheme \<Rightarrow> 'n pyval option \<Rightarrow> exn + 'n response" where
  "datatransformation_summary ops request =
     (case request of
        None \<Rightarrow> Inl (HTTPException 400 (ustr ''Invalid JSON in request body''))
      | Some req_body \<Rightarrow>
          (case (case req_body of
                   PList xs \<Rightarrow> Inr req_body
                 | _ \<Rightarrow> py_get ops req_body (PStr (ustr ''body'')) (PList [])) of
             Inl e \<Rightarrow> Inl e
           | Inr records \<Rightarrow>
               (case py_iter records of
                  Inl e \<Rightarrow> Inl e
                | Inr items \<Rightarrow>
                    (case summary_loop ops [] items of
                       Inl e \<Rightarrow> Inl e
                     | Inr duration_map \<Rightarrow>
                         JSONResponse ops (summary_content duration_map) 200))))"

section \<open>Python numbers\<close>

text \<open>
  Python's numbers: an \<open>int\<close> is an unbounded integer and a \<open>float\<close> is an IEEE 754
  double, which is a rational number, an infinity or a NaN. The sign of a zero is not
  kept (\<open>-0.0\<close> is \<open>Fin 0\<close>).
\<close>

datatype pyfloat = Fin rat | PInf | NInf | NaN

datatype pynum = PyInt int | PyFloat pyfloat

text \<open>
  \<open>ilog2 a\<close> is the integer \<open>k\<close> with \<open>2 powi k \<le> a < 2 powi (k + 1)\<close>, for a
  positive \<open>a\<close> (\<open>powi\<close> is the power with an integer exponent).
\<close>

function ilog2 :: "rat \<Rightarrow> int" where
  "ilog2 a =
     (if a \<le> 0 then 0
      else if 2 \<le> a then ilog2 (a / 2) + 1
      else if a < 1 then ilog2 (a * 2) - 1
      else 0)"
  by pat_completeness auto
termination
proof (relation "measure (\<lambda>a. if 1 \<le> a then nat \<lfloor>a\<rfloor> else if 0 < a then nat \<lceil>1 / a\<rceil> else 0)",
    goal_cases)
  case 1
  show ?case by simp
next
  case (2 a)
  then have "\<lfloor>a / 2\<rfloor> \<le> \<lfloor>a - 1\<rfloor>" by (intro floor_mono) simp
  with 2 show ?case by simp
next
  case (3 a)
  then have a: "0 < a" "a < 1" by simp_all
  then have "1 < 1 / a" by simp
  then have c: "2 \<le> \<lceil>1 / a\<rceil>" by linarith
  show ?case
  proof (cases "1 \<le> a * 2")
    case True
    then have "\<lfloor>a * 2\<rfloor> = 1" using a by linarith
    with True a c show ?thesis by simp
  next
    case False
    then have "2 < 1 / a" using a by (simp add: field_simps)
    then have "1 / (a * 2) \<le> 1 / a - 1" by (simp add: field_simps)
    then have "\<lceil>1 / (a * 2)\<rceil> \<le> \<lceil>1 / a - 1\<rceil>" by (rule ceiling_mono)
    with False a c show ?thesis by simp
  qed
qed

declare ilog2.simps [simp del]

text \<open>The nearest integer, a tie going to the even one.\<close>

definition round_half_even :: "rat \<Rightarrow> int" where
  "round_half_even x =
     (let f = \<lfloor>x\<rfloor>; d = x - of_int f
      in if d < 1 / 2 then f
         else if 1 / 2 < d then f + 1
         else if even f then f else f + 1)"

text \<open>
  The double nearest to a rational (round to nearest, ties to even): a multiple of
  \<open>2 powi e\<close> with a mantissa of at most 53 bits, where \<open>e\<close> is at least \<open>-1074\<close>;
  a result of \<open>2 powi 1024\<close> or more is an infinity.
\<close>

definition round_double :: "rat \<Rightarrow> pyfloat" where
  "round_double q =
     (if q = 0 then Fin 0
      else
        let a = \<bar>q\<bar>;
            e = max (ilog2 a - 52) (- 1074);
            r = of_int (round_half_even (a / 2 powi e)) * 2 powi e
        in if 2 powi 1024 \<le> r then (if 0 < q then PInf else NInf)
           else Fin (if 0 < q then r else - r))"

text \<open>\<open>x + y\<close> on two floats.\<close>

fun float_add :: "pyfloat \<Rightarrow> pyfloat \<Rightarrow> pyfloat" where
  "float_add NaN y = NaN"
| "float_add x NaN = NaN"
| "float_add PInf NInf = NaN"
| "float_add NInf PInf = NaN"
| "float_add PInf y = PInf"
| "float_add x PInf = PInf"
| "float_add NInf y = NInf"
| "float_add x NInf = NInf"
| "float_add (Fin a) (Fin b) = round_double (a + b)"

text \<open>\<open>float(i)\<close> on an \<open>int\<close>: the nearest double, or \<open>OverflowError\<close>.\<close>

definition float_of_int :: "int \<Rightarrow> exn + pyfloat" where
  "float_of_int i =
     (case round_double (of_int i) of Fin r \<Rightarrow> Inr (Fin r) | _ \<Rightarrow> Inl OverflowError)"

text \<open>\<open>x + y\<close> on two numbers: an \<open>int\<close> operand of a float addition becomes a float.\<close>

fun py_add :: "pynum \<Rightarrow> pynum \<Rightarrow> exn + pynum" where
  "py_add (PyInt a) (PyInt b) = Inr (PyInt (a + b))"
| "py_add (PyInt a) (PyFloat y) =
     (case float_of_int a of Inl e \<Rightarrow> Inl e | Inr x \<Rightarrow> Inr (PyFloat (float_add x y)))"
| "py_add (PyFloat x) (PyInt b) =
     (case float_of_int b of Inl e \<Rightarrow> Inl e | Inr y \<Rightarrow> Inr (PyFloat (float_add x y)))"
| "py_add (PyFloat x) (PyFloat y) = Inr (PyFloat (float_add x y))"

text \<open>\<open>x == y\<close> on two numbers: the values are compared exactly, and a NaN equals nothing.\<close>

fun py_num_eq :: "pynum \<Rightarrow> pynum \<Rightarrow> bool" where
  "py_num_eq (PyInt a) (PyInt b) = (a = b)"
| "py_num_eq (PyInt a) (PyFloat y) = (y = Fin (of_int a))"
| "py_num_eq (PyFloat x) (PyInt b) = (x = Fin (of_int b))"
| "py_num_eq (PyFloat x) (PyFloat y) = (x = y \<and> x \<noteq> NaN)"

fun py_num_truthy :: "pynum \<Rightarrow> bool" where
  "py_num_truthy (PyInt a) = (a \<noteq> 0)"
| "py_num_truthy (PyFloat x) = (x \<noteq> Fin 0)"

fun py_num_finite :: "pynum \<Rightarrow> bool" where
  "py_num_finite (PyInt a) = True"
| "py_num_finite (PyFloat x) = (case x of Fin r \<Rightarrow> True | _ \<Rightarrow> False)"

fun py_float_of_num :: "pynum \<Rightarrow> exn + pynum" where
  "py_float_of_num (PyInt a) =
     (case float_of_int a of Inl e \<Rightarrow> Inl e | Inr x \<Rightarrow> Inr (PyFloat x))"
| "py_float_of_num (PyFloat x) = Inr (PyFloat x)"

text \<open>
  Python's numbers as an instance of the operations. How \<open>float\<close> reads a string is
  the parameter \<open>parse\<close>: the grammar of float literals is not modelled.
\<close>

definition python_ops :: "(pystr \<Rightarrow> exn + pyfloat) \<Rightarrow> pynum num_ops" where
  "python_ops parse =
     \<lparr>num_zero = PyInt 0,
      num_add = py_add,
      num_truthy = py_num_truthy,
      num_eq = py_num_eq,
      num_of_bool = (\<lambda>b. PyInt (if b then 1 else 0)),
      num_finite = py_num_finite,
      float_of_num = py_float_of_num,
      float_of_bool = (\<lambda>b. PyFloat (Fin (if b then 1 else 0))),
      float_of_str = (\<lambda>s. case parse s of Inl e \<Rightarrow> Inl e | Inr x \<Rightarrow> Inr (PyFloat x))\<rparr>"

section \<open>Stating what the aggregation computes\<close>

text \<open>
  The \<open>app_name\<close> the loops read from a record, and the records the endpoints are
  meant for: JSON objects whose application name, when present, is a string.
\<close>

definition app_name :: "('n, 'z) num_ops_scheme \<Rightarrow> 'n pyval \<Rightarrow> 'n pyval" where
  "app_name ops item =
     (case py_get ops item (PStr (ustr ''application name'')) (PStr []) of
        Inl e \<Rightarrow> PStr []
      | Inr v \<Rightarrow> v)"

definition string_named :: "('n, 'z) num_ops_scheme \<Rightarrow> 'n pyval \<Rightarrow> bool" where
  "string_named ops item \<longleftrightarrow> (\<exists>d. item = PDict d) \<and> (\<exists>s. app_name ops item = PStr s)"

text \<open>The distinct elements of a list, in the order of their first occurrence.\<close>

fun first_seen :: "'a list \<Rightarrow> 'a list" where
  "first_seen [] = []"
| "first_seen (x # xs) = x # filter (\<lambda>y. y \<noteq> x) (first_seen xs)"

text \<open>
  \<open>0 + x1 + x2 + ...\<close> from left to right with the \<open>+\<close> of the numbers, as the loops
  compute it for one key; and the durations of the records with a given name.
\<close>

fun py_sum :: "('n, 'z) num_ops_scheme \<Rightarrow> 'n \<Rightarrow> 'n list \<Rightarrow> exn + 'n" where
  "py_sum ops acc [] = Inr acc"
| "py_sum ops acc (x # xs) =
     (case num_add ops acc x of Inl e \<Rightarrow> Inl e | Inr acc' \<Rightarrow> py_sum ops acc' xs)"

definition durations_of :: "('n, 'z) num_ops_scheme \<Rightarrow> 'n pyval \<Rightarrow> 'n pyval list \<Rightarrow> 'n list" where
  "durations_of ops k items =
     map (exec_duration ops) (filter (\<lambda>item. app_name ops item = k) items)"

text \<open>
  The numbers the loops add: the integer \<open>0\<close> (the start of a sum, and the duration
  of a record whose duration does not convert) and floats.
\<close>

definition zero_or_float :: "pynum \<Rightarrow> bool" where
  "zero_or_float n \<longleftrightarrow> n = PyInt 0 \<or> (\<exists>x. n = PyFloat x)"

text \<open>The rational a finite number is.\<close>

fun num_value :: "pynum \<Rightarrow> rat option" where
  "num_value (PyInt a) = Some (of_int a)"
| "num_value (PyFloat (Fin r)) = Some r"
| "num_value (PyFloat x) = None"

section \<open>An example environment\<close>

text \<open>
  A concrete instance of the collaborators, on which the theorems below are run.
  Numbers are integers and a string of digits parses as a number. The index is the list
  of the records upserted so far; it holds at most \<open>capacity\<close> records, and an upsert
  beyond that raises. A query returns the first \<open>top_k\<close> records as matches. The
  embedding of a text is the text itself, the document loader returns one page of 251
  words, and the answer service is unavailable.
\<close>

definition example_float_of_str :: "pystr \<Rightarrow> exn + int" where
  "example_float_of_str s =
     (if s \<noteq> [] \<and> list_all (\<lambda>c. 48 \<le> c \<and> c \<le> 57) s
      then Inr (int (foldl (\<lambda>a c. 10 * a + (c - 48)) 0 s))
      else Inl ValueError)"

definition example_page :: pystr where
  "example_page = join (ustr '' '') (replicate 251 (ustr ''a''))"

definition example_env ::
  "nat \<Rightarrow> (int, pystr, (pystr \<times> pystr \<times> int pyval) list) env" where
  "example_env capacity =
     \<lparr>num_zero = 0,
      num_add = (\<lambda>a b. Inr (a + b)),
      num_truthy = (\<lambda>n. n \<noteq> 0),
      num_eq = (\<lambda>a b. a = b),
      num_of_bool = (\<lambda>b. if b then 1 else 0),
      num_finite = (\<lambda>n. True),
      float_of_num = Inr,
      float_of_bool = (\<lambda>b. if b then 1 else 0),
      float_of_str = example_float_of_str,
      encode = Inr,
      index_query = (\<lambda>idx v top_k.
        Inr (PDict [(PStr (ustr ''matches''),
          PList (map (\<lambda>(i, emb, metadata).
                   PDict [(PStr (ustr ''id''), PStr i), (PStr (ustr ''metadata''), metadata)])
                 (take (nat top_k) idx)))])),
      index_upsert = (\<lambda>idx records.
        if capacity < length idx + length records then Inl (External (ustr ''index full''))
        else Inr (idx @ records)),
      load_documents = (\<lambda>drive_id object_id. Inr [example_page]),
      http_post = (\<lambda>url payload headers.
        Inr \<lparr>resp_status_code = 503, resp_text = ustr ''unavailable'',
             resp_json = Inl JSONDecodeError\<rparr>),
      gemini_api_key = None,
      format_value = (\<lambda>v. ustr ''?''),
      str_exn = (\<lambda>e. case e of HTTPException st detail \<Rightarrow> decimal (nat st) @ ustr '': '' @ detail
                          | External m \<Rightarrow> m
                          | _ \<Rightarrow> [])\<rparr>"

text \<open>
  For the aggregation endpoints, Python's numbers with a \<open>float\<close> that reads a string
  of decimal digits and the string \<open>nan\<close>, and rejects every other string.
\<close>

definition example_parse :: "pystr \<Rightarrow> exn + pyfloat" where
  "example_parse s =
     (if s = ustr ''nan'' then Inr NaN
      else if s \<noteq> [] \<and> list_all (\<lambda>c. 48 \<le> c \<and> c \<le> 57) s
      then Inr (round_double (of_nat (foldl (\<lambda>a c. 10 * a + (c - 48)) 0 s)))
      else Inl ValueError)"

text \<open>
  Six records: three of application \<open>a\<close> (one of them with a duration that does not
  parse), one of \<open>b\<close>, one with no application name and one with an empty name and no
  duration.
\<close>

definition example_records :: "pynum pyval list" where
  "example_records =
     [PDict [(PStr (ustr ''application name''), PStr (ustr ''a'')),
             (PStr (ustr ''execution duration''), PStr (ustr ''3''))],
      PDict [(PStr (ustr ''application name''), PStr (ustr ''b'')),
             (PStr (ustr ''execution duration''), PNum (PyInt 4))],
      PDict [(PStr (ustr ''application name''), PStr (ustr ''a'')),
             (PStr (ustr ''execution duration''), PStr (ustr ''x''))],
      PDict [(PStr (ustr ''execution duration''), PNum (PyInt 7))],
      PDict [(PStr (ustr ''application name''), PStr (ustr ''a'')),
             (PStr (ustr ''execution duration''), PNum (PyInt 5))],
      PDict [(PStr (ustr ''application name''), PStr [])]]"

text \<open>
  Records whose sum is not the sum of the doubles: \<open>2 ^ 53\<close>, \<open>1\<close> and \<open>- 2 ^ 53\<close>
  for one application. And one record whose duration is the string \<open>nan\<close>.
\<close>

definition rounding_records :: "pynum pyval list" where
  "rounding_records =
     [PDict [(PStr (ustr ''application name''), PStr (ustr ''a'')),
             (PStr (ustr ''execution duration''), PNum (PyInt 9007199254740992))],
      PDict [(PStr (ustr ''application name''), PStr (ustr ''a'')),
             (PStr (ustr ''execution duration''), PNum (PyInt 1))],
      PDict [(PStr (ustr ''application name''), PStr (ustr ''a'')),
             (PStr (ustr ''execution duration''), PNum (PyInt (- 9007199254740992)))]]"

definition nan_records :: "pynum pyval list" where
  "nan_records =
     [PDict [(PStr (ustr ''application name''), PStr (ustr ''a'')),
             (PStr (ustr ''execution duration''), PStr (ustr ''nan''))]]"

section \<open>Properties of the chunker\<close>

lemma chunk_loop_map:
  "chunk_loop words cs is chunks =
     chunks @ map (\<lambda>i. join (ustr '' '') (slice words i (i + cs))) is"
  by (induction "is" arbitrary: chunks) simp_all

lemma slice_window:
  "0 \<le> c \<Longrightarrow> slice xs (int i) (int i + c) = take (nat c) (drop i xs)"
  by (auto simp: slice_def slice_bound_def Let_def min_def nat_add_distrib)

lemma ceil_div_step:
  fixes s d :: nat
  assumes "0 < s" "0 < d"
  shows "(d + s - 1) div s = Suc ((d - s + s - 1) div s)"
proof (cases "s \<le> d")
  case True
  define x where "x = d - s + s - 1"
  have "d + s - 1 = x + s" using True assms by (simp add: x_def)
  moreover have "(x + s) div s = Suc (x div s)" using assms(1) by (simp add: div_add_self2)
  ultimately show ?thesis by (simp add: x_def)
next
  case False
  define y where "y = d - 1"
  have "d + s - 1 = y + s" "y < s" using False assms by (simp_all add: y_def)
  moreover have "(y + s) div s = Suc (y div s)" using assms(1) by (simp add: div_add_self2)
  moreover have "(d - s + s - 1) div s = 0" using False assms by simp
  ultimately show ?thesis by simp
qed

lemma range_list_pos:
  "0 < s \<Longrightarrow> range_list (int a) (int n) (int s) =
     map (\<lambda>k. int (a + k * s)) [0 ..< (n - a + s - 1) div s]"
proof (induction "n - a" arbitrary: a rule: less_induct)
  case less
  show ?case
  proof (cases "a < n")
    case False
    then have "(n - a + s - 1) div s = 0" using less.prems by simp
    with False show ?thesis by (simp add: range_list.simps)
  next
    case True
    have "n - (a + s) = n - a - s" by simp
    then have cnt: "(n - a + s - 1) div s = Suc ((n - (a + s) + s - 1) div s)"
      using ceil_div_step [of s "n - a"] True less.prems by simp
    have "range_list (int a) (int n) (int s) = int a # range_list (int (a + s)) (int n) (int s)"
      using True less.prems by (subst range_list.simps) simp
    also have "range_list (int (a + s)) (int n) (int s) =
        map (\<lambda>k. int (a + s + k * s)) [0 ..< (n - (a + s) + s - 1) div s]"
      using less.hyps [of "a + s"] True less.prems by simp
    also have "\<dots> = map (\<lambda>k. int (a + k * s)) (map Suc [0 ..< (n - (a + s) + s - 1) div s])"
      by (simp add: algebra_simps)
    finally show ?thesis
      unfolding cnt by (simp add: upt_conv_Cons map_Suc_upt del: upt_Suc map_map)
  qed
qed

lemma chunk_text_windows:
  assumes "2 \<le> cs"
  shows "chunk_text text cs =
    Inr (map (join (ustr '' '')) (windows (split text) (nat cs) (nat (cs div 2))))"
proof -
  define s where "s = nat (cs div 2)"
  define ws where "ws = split text"
  have s: "0 < s" "cs div 2 = int s" using assms by (simp_all add: s_def)
  have r: "range_list 0 (int (length ws)) (int s) =
      map (\<lambda>k. int (k * s)) [0 ..< (length ws + s - 1) div s]"
    using range_list_pos [OF s(1), of 0 "length ws"] by simp
  have w: "slice ws (int (k * s)) (int (k * s) + cs) = take (nat cs) (drop (k * s) ws)" for k
    using assms by (intro slice_window) simp
  have "chunk_text text cs = Inr (chunk_loop ws cs (range_list 0 (int (length ws)) (int s)) [])"
    using s by (simp add: chunk_text_def range3_def Let_def ws_def)
  also have "chunk_loop ws cs (range_list 0 (int (length ws)) (int s)) [] =
      map (\<lambda>k. join (ustr '' '') (take (nat cs) (drop (k * s) ws))) [0 ..< (length ws + s - 1) div s]"
    unfolding chunk_loop_map r by (simp add: o_def w del: of_nat_mult)
  finally show ?thesis
    by (simp add: windows_def o_def s_def ws_def)
qed

lemma split_Nil: "split [] = []"
  by (simp add: split.simps)

lemma split_space_Cons: "isspace c \<Longrightarrow> split (c # s) = split s"
  by (subst split.simps, subst (2) split.simps) simp

lemma split_word_append:
  assumes "wordlike w" and "r = [] \<or> isspace (hd r)"
  shows "split (w @ r) = w # split r"
proof -
  from assms(1) obtain c cs where w: "w = c # cs" and c: "\<not> isspace c"
    and cs: "\<forall>x\<in>set cs. \<not> isspace x"
    by (cases w) (auto simp: wordlike_def)
  have tw: "takeWhile (\<lambda>x. \<not> isspace x) (w @ r) = w"
    using assms by (cases r) (auto simp: wordlike_def takeWhile_append2 w)
  have dw: "dropWhile (\<lambda>x. \<not> isspace x) (w @ r) = r"
    using assms by (cases r) (auto simp: wordlike_def dropWhile_append2 w)
  have "dropWhile isspace (w @ r) = w @ r" using w c by simp
  then show ?thesis
    using tw dw w by (subst split.simps) simp
qed

lemma split_join:
  "\<forall>w\<in>set ws. wordlike w \<Longrightarrow> split (join (ustr '' '') ws) = ws"
proof (induction "ustr '' ''" ws rule: join.induct)
  case 1
  show ?case by (simp add: split_Nil)
next
  case (2 x)
  then show ?case using split_word_append [of x "[]"] by (simp add: split_Nil)
next
  case (3 x y ys)
  have sp: "isspace 32" by (simp add: isspace_def)
  have "split (x @ ustr '' '' @ join (ustr '' '') (y # ys)) =
      x # split (ustr '' '' @ join (ustr '' '') (y # ys))"
    using 3 sp by (intro split_word_append) (simp_all add: ustr_def)
  also have "split (ustr '' '' @ join (ustr '' '') (y # ys)) = split (join (ustr '' '') (y # ys))"
    using sp by (simp add: ustr_def split_space_Cons)
  finally show ?case using 3 by simp
qed

lemma split_unfold_Cons:
  "dropWhile isspace s = c # cs \<Longrightarrow>
   split s = takeWhile (\<lambda>x. \<not> isspace x) (c # cs) #
             split (dropWhile (\<lambda>x. \<not> isspace x) (c # cs))"
  by (subst split.simps) simp

lemma split_unfold_Nil: "dropWhile isspace s = [] \<Longrightarrow> split s = []"
  by (subst split.simps) (simp del: dropWhile_eq_Nil_conv)

lemma split_wordlike: "w \<in> set (split s) \<Longrightarrow> wordlike w"
proof (induction s arbitrary: w rule: split.induct)
  case (1 s)
  show ?case
  proof (cases "dropWhile isspace s")
    case Nil
    with 1(2) show ?thesis by (simp add: split_unfold_Nil)
  next
    case (Cons c cs)
    have c: "\<not> isspace c" using hd_dropWhile [of isspace s] Cons by simp
    from 1(2) have "w = takeWhile (\<lambda>x. \<not> isspace x) (c # cs) \<or>
        w \<in> set (split (dropWhile (\<lambda>x. \<not> isspace x) (c # cs)))"
      unfolding split_unfold_Cons [OF Cons] by simp
    then show ?thesis
    proof
      assume w: "w = takeWhile (\<lambda>x. \<not> isspace x) (c # cs)"
      have "\<forall>x\<in>set w. \<not> isspace x" unfolding w by (auto dest: set_takeWhileD)
      moreover have "w \<noteq> []" unfolding w using c by simp
      ultimately show ?thesis by (simp add: wordlike_def)
    next
      assume "w \<in> set (split (dropWhile (\<lambda>x. \<not> isspace x) (c # cs)))"
      then show ?thesis by (rule 1(1) [OF Cons])
    qed
  qed
qed

lemma ceil_div_covers:
  fixes n s :: nat
  assumes "0 < s"
  shows "n \<le> ((n + s - 1) div s) * s"
proof -
  have "(n + s - 1) mod s < s" using assms by simp
  moreover have "((n + s - 1) div s) * s + (n + s - 1) mod s = n + s - 1"
    by simp
  ultimately show ?thesis by linarith
qed

lemma div_less_ceil_div:
  fixes j n s :: nat
  assumes "0 < s" "j < n"
  shows "j div s < (n + s - 1) div s"
proof -
  have "j + s \<le> n + s - 1" using assms by simp
  then have "(j + s) div s \<le> (n + s - 1) div s" by (rule div_le_mono)
  moreover have "(j + s) div s = Suc (j div s)" using assms(1) by (simp add: div_add_self2)
  ultimately show ?thesis by simp
qed

lemma ceil_div_less_mult:
  fixes k n s :: nat
  assumes "0 < s" "k < (n + s - 1) div s"
  shows "k * s < n"
proof (rule ccontr)
  assume "\<not> k * s < n"
  then have "n + s - 1 < Suc k * s" using assms(1) by simp
  then have "(n + s - 1) div s < Suc k" using assms(1) by (simp add: less_mult_imp_div_less)
  with assms(2) show False by simp
qed

lemma length_windows: "length (windows ws m s) = (length ws + s - 1) div s"
  by (simp add: windows_def)

lemma nth_windows:
  "k < (length ws + s - 1) div s \<Longrightarrow> windows ws m s ! k = take m (drop (k * s) ws)"
  by (simp add: windows_def)

lemma concat_take_steps:
  "concat (map (\<lambda>k. take s (drop (k * s) ws)) [0 ..< m]) = take (m * s) ws"
proof (induction m)
  case 0
  show ?case by simp
next
  case (Suc m)
  have "take (m * s + s) ws = take (m * s) ws @ take s (drop (m * s) ws)"
    by (rule take_add)
  with Suc show ?case by (simp add: add.commute)
qed

lemma concat_windows:
  assumes "0 < s" "s \<le> m"
  shows "concat (map (take s) (windows ws m s)) = ws"
proof -
  have "map (take s) (windows ws m s) =
      map (\<lambda>k. take s (drop (k * s) ws)) [0 ..< (length ws + s - 1) div s]"
    using assms(2) by (simp add: windows_def o_def min_def)
  then show ?thesis
    using ceil_div_covers [OF assms(1), of "length ws"] by (simp add: concat_take_steps)
qed

lemma windows_cover:
  assumes "0 < s" "s \<le> m" "j < length ws"
  shows "j div s < length (windows ws m s) \<and> windows ws m s ! (j div s) ! (j mod s) = ws ! j"
proof -
  have k: "j div s < (length ws + s - 1) div s"
    using assms by (intro div_less_ceil_div)
  have "j mod s < m" using assms by (meson mod_less_divisor less_le_trans)
  moreover have e: "j div s * s + j mod s = j" by simp
  moreover have "j div s * s \<le> length ws"
    using e assms(3) by linarith
  then have "drop (j div s * s) ws ! (j mod s) = ws ! (j div s * s + j mod s)"
    by (rule nth_drop)
  ultimately have "take m (drop (j div s * s) ws) ! (j mod s) = ws ! j"
    by (simp del: div_mult_mod_eq)
  with k show ?thesis by (simp add: length_windows nth_windows)
qed

lemma windows_overlap:
  assumes "0 < s" "Suc k < length (windows ws (2 * s) s)"
  shows "drop s (windows ws (2 * s) s ! k) \<noteq> [] \<and>
         drop s (windows ws (2 * s) s ! k) = take s (windows ws (2 * s) s ! Suc k)"
proof -
  have k: "Suc k < (length ws + s - 1) div s" "k < (length ws + s - 1) div s"
    using assms(2) by (simp_all add: length_windows)
  have lt: "Suc k * s < length ws" using ceil_div_less_mult [OF assms(1) k(1)] .
  have "drop s (take (2 * s) (drop (k * s) ws)) = take s (drop (Suc k * s) ws)"
    by (simp add: drop_take add.commute)
  moreover have "take s (take (2 * s) (drop (Suc k * s) ws)) = take s (drop (Suc k * s) ws)"
    by (simp add: min_def)
  moreover have "take s (drop (Suc k * s) ws) \<noteq> []"
    using lt assms(1) by simp
  ultimately show ?thesis
    using k by (simp add: nth_windows)
qed

lemma windows_wordlike:
  "\<forall>w\<in>set ws. wordlike w \<Longrightarrow> win \<in> set (windows ws m s) \<Longrightarrow> \<forall>w\<in>set win. wordlike w"
  by (auto simp: windows_def dest!: in_set_takeD in_set_dropD)

lemma split_chunks:
  "\<forall>w\<in>set ws. wordlike w \<Longrightarrow>
   map split (map (join (ustr '' '')) (windows ws m s)) = windows ws m s"
  by (simp add: map_idI split_join windows_wordlike)

section \<open>Claims about the chunker\<close>

lemmas chunk_eval = chunk_text_def split.simps ustr_def isspace_def range3_def
  range_list.simps slice_def slice_bound_def

text \<open>
  C1 (amended). For a text whose word list is non-empty and has fewer than
  \<open>chunk_size\<close> words, \<open>chunk_text\<close> returns one chunk when there are at most
  \<open>chunk_size // 2\<close> words and two chunks otherwise. The first chunk holds all the
  words of the text, joined by single spaces; the second, when there is one, holds the
  words from index \<open>chunk_size // 2\<close> on.
\<close>

theorem chunk_text_short:
  assumes "split text \<noteq> []" and "int (length (split text)) < chunk_size"
  shows "chunk_text text chunk_size =
      Inr (if int (length (split text)) \<le> chunk_size div 2
           then [join (ustr '' '') (split text)]
           else [join (ustr '' '') (split text),
                 join (ustr '' '') (drop (nat (chunk_size div 2)) (split text))])"
proof -
  define ws where "ws = split text"
  define s where "s = nat (chunk_size div 2)"
  define n where "n = length ws"
  have n: "0 < n" "int n < chunk_size" using assms by (simp_all add: ws_def n_def)
  then have cs: "2 \<le> chunk_size" by simp
  have s: "0 < s" "n \<le> 2 * s" using n cs by (simp_all add: s_def)
  have full: "take (nat chunk_size) ws = ws" using n by (simp add: n_def)
  have rest: "take (nat chunk_size) (drop s ws) = drop s ws" using n by (simp add: n_def)
  show ?thesis
  proof (cases "n \<le> s")
    case True
    then have "(n + s - 1) div s = 1" using n(1) s(1) by (simp add: div_eq_dividend_iff Suc_leI div_nat_eqI)
    then have "windows ws (nat chunk_size) s = [ws]"
      by (simp add: windows_def n_def full)
    moreover have "int (length (split text)) \<le> chunk_size div 2"
      using True cs by (simp add: s_def n_def ws_def)
    ultimately show ?thesis
      using chunk_text_windows [OF cs, of "text"] by (simp add: ws_def s_def)
  next
    case False
    then have "(n + s - 1) div s = 2" using s by (intro div_nat_eqI) simp_all
    then have "windows ws (nat chunk_size) s = [ws, drop s ws]"
      by (simp add: windows_def n_def full rest upt_conv_Cons numeral_2_eq_2 del: upt_Suc)
    moreover have "\<not> int (length (split text)) \<le> chunk_size div 2"
      using False cs by (simp add: s_def n_def ws_def)
    ultimately show ?thesis
      using chunk_text_windows [OF cs, of "text"] by (simp add: ws_def s_def)
  qed
qed

theorem chunk_text_short_witness:
  "split (ustr ''a b c'') \<noteq> [] \<and> int (length (split (ustr ''a b c''))) < 7 \<and>
   chunk_text (ustr ''a b c'') 7 = Inr [ustr ''a b c'']"
proof -
  have w: "split (ustr ''a b c'') = [ustr ''a'', ustr ''b'', ustr ''c'']"
    by (simp add: split.simps ustr_def isspace_def)
  show ?thesis
    using chunk_text_short [of "ustr ''a b c''" 7] by (simp add: w) (simp add: ustr_def)
qed

text \<open>
  C1 as stated fails on three words and \<open>chunk_size = 4\<close>: fewer words than
  \<open>chunk_size\<close>, and two chunks, since a chunk starts at word 2 as well.
\<close>

theorem chunk_text_short_counterexample:
  "length (split (ustr ''a b c'')) = 3 \<and>
   chunk_text (ustr ''a b c'') 4 = Inr [ustr ''a b c'', ustr ''c'']"
  by (simp add: chunk_eval)

text \<open>
  C3. For every text and every \<open>chunk_size \<ge> 2\<close>, \<open>chunk_text\<close> returns the chunks
  whose \<open>k\<close>-th element is the space-join of the (up to) \<open>chunk_size\<close> words starting
  at word \<open>k * (chunk_size // 2)\<close>, one chunk for every \<open>(chunk_size // 2)\<close>-th word
  of the whitespace split of the text; for the empty text the result is the empty list.
\<close>

theorem chunk_text_spec:
  assumes "2 \<le> chunk_size"
  shows "chunk_text text chunk_size =
      Inr (map (\<lambda>k. join (ustr '' '')
                  (take (nat chunk_size) (drop (k * nat (chunk_size div 2)) (split text))))
             [0 ..< (length (split text) + nat (chunk_size div 2) - 1) div nat (chunk_size div 2)])
    \<and> chunk_text [] chunk_size = Inr []"
proof -
  have "0 < nat (chunk_size div 2)" using assms by simp
  then have "(nat (chunk_size div 2) - 1) div nat (chunk_size div 2) = 0" by simp
  then have "chunk_text [] chunk_size = Inr []"
    using chunk_text_windows [OF assms, of "[]"] by (simp add: windows_def split_Nil)
  then show ?thesis
    using chunk_text_windows [OF assms, of "text"] by (simp add: windows_def o_def)
qed

theorem chunk_text_spec_witness:
  "chunk_text (ustr ''a b  c d e'') 2 =
     Inr [ustr ''a b'', ustr ''b c'', ustr ''c d'', ustr ''d e'', ustr ''e'']
   \<and> chunk_text [] 2 = Inr []"
proof -
  have w: "split (ustr ''a b  c d e'') = [ustr ''a'', ustr ''b'', ustr ''c'', ustr ''d'', ustr ''e'']"
    by (simp add: split.simps ustr_def isspace_def)
  show ?thesis
    using chunk_text_spec [of 2 "ustr ''a b  c d e''"]
    by (simp add: w upt_conv_Cons del: upt_Suc) (simp add: ustr_def)
qed

text \<open>
  C9. For every text, the empty one included, \<open>chunk_text\<close> raises \<open>ValueError\<close>
  when \<open>chunk_size\<close> is 0 or 1, since the step \<open>chunk_size // 2\<close> of the range is
  then zero; among the non-negative values of \<open>chunk_size\<close> it returns exactly
  for \<open>chunk_size \<ge> 2\<close>.
\<close>

theorem chunk_text_step_zero:
  "(chunk_size = 0 \<or> chunk_size = 1 \<longrightarrow> chunk_text text chunk_size = Inl ValueError) \<and>
   (0 \<le> chunk_size \<longrightarrow> ((\<exists>chunks. chunk_text text chunk_size = Inr chunks) \<longleftrightarrow> 2 \<le> chunk_size))"
proof -
  have z: "chunk_size div 2 = 0 \<longleftrightarrow> chunk_size = 0 \<or> chunk_size = 1" by presburger
  have "chunk_size = 0 \<or> chunk_size = 1 \<longrightarrow> chunk_text text chunk_size = Inl ValueError"
    using z by (simp add: chunk_text_def range3_def Let_def)
  moreover have "0 \<le> chunk_size \<longrightarrow>
      ((\<exists>chunks. chunk_text text chunk_size = Inr chunks) \<longleftrightarrow> 2 \<le> chunk_size)"
    using z by (auto simp: chunk_text_def range3_def Let_def)
  ultimately show ?thesis by blast
qed

theorem chunk_text_step_zero_witness:
  "chunk_text [] 0 = Inl ValueError \<and> chunk_text (ustr ''a b'') 1 = Inl ValueError \<and>
   (\<exists>chunks. chunk_text (ustr ''a b'') 2 = Inr chunks)"
  using chunk_text_step_zero [of 0 "[]"] chunk_text_step_zero [of 1 "ustr ''a b''"]
    chunk_text_step_zero [of 2 "ustr ''a b''"]
  by simp

text \<open>
  C4. For every text (in particular every non-empty one) and \<open>chunk_size = 500\<close>,
  chunking never reorders, drops or invents words. There is one chunk for every 250th
  word; the words of chunk \<open>k\<close> are the contiguous window of up to 500 words of the
  text that starts at word \<open>250 * k\<close>; word \<open>j\<close> of the text is word \<open>j mod 250\<close> of
  chunk \<open>j div 250\<close>; two consecutive chunks overlap, the words of a chunk behind its
  first 250 being the first words of the next chunk, and there is at least one such
  word; and the first 250 words of every chunk, concatenated in order, are the word
  sequence of the text.
\<close>

theorem chunk_text_500_windows:
  "\<exists>chunks. chunk_text text 500 = Inr chunks
     \<and> length chunks = (length (split text) + 249) div 250
     \<and> (\<forall>k<length chunks. split (chunks ! k) = take 500 (drop (k * 250) (split text)))
     \<and> (\<forall>j<length (split text).
           j div 250 < length chunks \<and>
           split (chunks ! (j div 250)) ! (j mod 250) = split text ! j)
     \<and> (\<forall>k. Suc k < length chunks \<longrightarrow>
           drop 250 (split (chunks ! k)) \<noteq> [] \<and>
           drop 250 (split (chunks ! k)) = take 250 (split (chunks ! Suc k)))
     \<and> concat (map (\<lambda>c. take 250 (split c)) chunks) = split text"
proof -
  define ws where "ws = split text"
  define W where "W = windows ws 500 250"
  define chunks where "chunks = map (join (ustr '' '')) W"
  have wl: "\<forall>w\<in>set ws. wordlike w"
    by (simp add: ws_def split_wordlike)
  have c: "chunk_text text 500 = Inr chunks"
    using chunk_text_windows [of 500 "text"] by (simp add: chunks_def W_def ws_def)
  have sp: "map split chunks = W"
    unfolding chunks_def W_def using wl by (rule split_chunks)
  have len: "length chunks = length W" by (simp add: chunks_def)
  have nth: "split (chunks ! k) = W ! k" if "k < length W" for k
    using that sp len by (metis nth_map)
  have lW: "length W = (length ws + 249) div 250"
    by (simp add: W_def length_windows)
  have 1: "\<forall>k<length chunks. split (chunks ! k) = take 500 (drop (k * 250) ws)"
    using nth lW len by (simp add: W_def nth_windows)
  have 2: "\<forall>j<length ws. j div 250 < length chunks \<and>
      split (chunks ! (j div 250)) ! (j mod 250) = ws ! j"
  proof (intro allI impI)
    fix j assume "j < length ws"
    then have "j div 250 < length W \<and> W ! (j div 250) ! (j mod 250) = ws ! j"
      unfolding W_def by (intro windows_cover) simp_all
    then show "j div 250 < length chunks \<and>
        split (chunks ! (j div 250)) ! (j mod 250) = ws ! j"
      using nth len by simp
  qed
  have 3: "\<forall>k. Suc k < length chunks \<longrightarrow>
      drop 250 (split (chunks ! k)) \<noteq> [] \<and>
      drop 250 (split (chunks ! k)) = take 250 (split (chunks ! Suc k))"
  proof (intro allI impI)
    fix k assume k: "Suc k < length chunks"
    have e: "windows ws (2 * 250) 250 = W" by (simp add: W_def)
    have kk: "Suc k < length (windows ws (2 * 250) 250)"
      unfolding e using k len by simp
    have ov: "drop 250 (W ! k) \<noteq> [] \<and> drop 250 (W ! k) = take 250 (W ! Suc k)"
      by (rule windows_overlap [OF zero_less_numeral kk, unfolded e])
    have a: "split (chunks ! k) = W ! k" and b: "split (chunks ! Suc k) = W ! Suc k"
      using nth [of k] nth [of "Suc k"] k len by simp_all
    show "drop 250 (split (chunks ! k)) \<noteq> [] \<and>
        drop 250 (split (chunks ! k)) = take 250 (split (chunks ! Suc k))"
      unfolding a b by (rule ov)
  qed
  have "concat (map (take 250) (map split chunks)) = ws"
    unfolding sp W_def by (intro concat_windows) simp_all
  then have 4: "concat (map (\<lambda>c. take 250 (split c)) chunks) = ws"
    by (simp add: o_def)
  have L: "length chunks = (length ws + 249) div 250"
    using len lW by simp
  show ?thesis
    unfolding ws_def [symmetric] by (intro exI [of _ chunks] conjI c L 1 2 3 4)
qed

theorem chunk_text_500_windows_witness:
  "\<exists>chunks. chunk_text (join (ustr '' '') (replicate 251 (ustr ''a''))) 500 = Inr chunks
     \<and> length chunks = 2
     \<and> drop 250 (split (chunks ! 0)) = [ustr ''a'']
     \<and> take 250 (split (chunks ! 1)) = [ustr ''a'']
     \<and> concat (map (\<lambda>c. take 250 (split c)) chunks) = replicate 251 (ustr ''a'')"
proof -
  define t where "t = join (ustr '' '') (replicate 251 (ustr ''a''))"
  have "wordlike (ustr ''a'')" by (simp add: wordlike_def ustr_def isspace_def)
  then have w: "split t = replicate 251 (ustr ''a'')"
    unfolding t_def by (intro split_join) simp
  from chunk_text_500_windows [of t] obtain chunks where
    c: "chunk_text t 500 = Inr chunks" and
    l: "length chunks = (length (split t) + 249) div 250" and
    k: "\<forall>k<length chunks. split (chunks ! k) = take 500 (drop (k * 250) (split t))" and
    o: "\<forall>k. Suc k < length chunks \<longrightarrow>
           drop 250 (split (chunks ! k)) \<noteq> [] \<and>
           drop 250 (split (chunks ! k)) = take 250 (split (chunks ! Suc k))" and
    r: "concat (map (\<lambda>c. take 250 (split c)) chunks) = split t"
    by blast
  have l2: "length chunks = 2" using l by (simp add: w)
  have "split (chunks ! 1) = take 500 (drop 250 (replicate 251 (ustr ''a'')))"
    using k l2 w by simp
  then have s1: "take 250 (split (chunks ! 1)) = [ustr ''a'']" by simp
  have "drop 250 (split (chunks ! 0)) = take 250 (split (chunks ! 1))"
    using o l2 by simp
  then have d0: "drop 250 (split (chunks ! 0)) = [ustr ''a'']"
    using s1 by simp
  have r': "concat (map (\<lambda>c. take 250 (split c)) chunks) = replicate 251 (ustr ''a'')"
    using r unfolding w .
  show ?thesis
    unfolding t_def [symmetric] by (intro exI [of _ chunks] conjI c l2 d0 s1 r')
qed

section \<open>Claims about the retriever and the answer composer\<close>

lemma strs_of_PStr: "strs_of (map PStr ts) = Inr ts"
  by (induction ts) simp_all

lemma retrieved_texts_PStr:
  "list_all2 (\<lambda>m t. \<exists>md. py_getitem_str m (ustr ''metadata'') = Inr md \<and>
                      py_getitem_str md (ustr ''text'') = Inr (PStr t)) ms texts
   \<Longrightarrow> retrieved_texts ms = Inr (map PStr texts)"
  by (induction ms texts rule: list_all2_induct) auto

text \<open>
  C5. For every query and every list of matches the vector index returns, each match
  carrying a string under \<open>metadata\<close>, \<open>text\<close>, \<open>retrieve_similar_chunks\<close> returns
  those strings joined by a newline, in the order of the matches; when the index
  returns no match the result is the empty string, and nothing is raised.
\<close>

theorem retrieve_similar_chunks_joins:
  assumes "encode env [query] = Inr query_embedding"
    and "index_query env idx query_embedding top_k = Inr results"
    and "py_get env results (PStr (ustr ''matches'')) (PList []) = Inr (PList ms)"
    and "list_all2 (\<lambda>m t. \<exists>md. py_getitem_str m (ustr ''metadata'') = Inr md \<and>
                      py_getitem_str md (ustr ''text'') = Inr (PStr t)) ms texts"
  shows "retrieve_similar_chunks env idx query top_k = Inr (join [10] texts)
    \<and> (ms = [] \<longrightarrow> retrieve_similar_chunks env idx query top_k = Inr [])"
proof -
  have r: "retrieve_similar_chunks env idx query top_k = Inr (join [10] texts)"
    using assms(1-3) retrieved_texts_PStr [OF assms(4)]
    by (simp add: retrieve_similar_chunks_def py_iter_def py_join_def strs_of_PStr)
  moreover have "ms = [] \<longrightarrow> texts = []" using assms(4) by auto
  ultimately show ?thesis by auto
qed

theorem retrieve_similar_chunks_joins_witness:
  "retrieve_similar_chunks (example_env 5)
     [(ustr ''o_0'', ustr ''v0'', PDict [(PStr (ustr ''text''), PStr (ustr ''alpha''))]),
      (ustr ''o_1'', ustr ''v1'', PDict [(PStr (ustr ''text''), PStr (ustr ''beta''))])]
     (ustr ''what is alpha'') 3 = Inr (ustr ''alpha'' @ [10] @ ustr ''beta'')
   \<and> retrieve_similar_chunks (example_env 5) [] (ustr ''what is alpha'') 3 = Inr []"
proof -
  let ?idx = "[(ustr ''o_0'', ustr ''v0'', PDict [(PStr (ustr ''text''), PStr (ustr ''alpha''))]),
      (ustr ''o_1'', ustr ''v1'', PDict [(PStr (ustr ''text''), PStr (ustr ''beta''))])]"
  let ?m = "\<lambda>(i, emb, metadata).
       PDict [(PStr (ustr ''id''), PStr i), (PStr (ustr ''metadata''), metadata)]"
  let ?q = "ustr ''what is alpha''"
  have e: "encode (example_env 5) [?q] = Inr [?q]"
    by (simp add: example_env_def)
  have q: "index_query (example_env 5) idx [?q] 3 =
      Inr (PDict [(PStr (ustr ''matches''), PList (map ?m (take 3 idx)))])" for idx
    by (simp add: example_env_def)
  have g: "py_get (example_env 5) (PDict [(PStr (ustr ''matches''), PList xs)]) (PStr (ustr ''matches''))
      (PList []) = Inr (PList xs)" for xs :: "int pyval list"
    by (simp add: py_get_def dict_get_def hashable_def key_eq_def key_num_def)
  have t: "list_all2 (\<lambda>m t. \<exists>md. py_getitem_str m (ustr ''metadata'') = Inr md \<and>
                      py_getitem_str md (ustr ''text'') = Inr (PStr t))
      (map ?m (take 3 ?idx)) [ustr ''alpha'', ustr ''beta'']"
    by (simp add: py_getitem_str_def ustr_def)
  have t0: "list_all2 (\<lambda>m t. \<exists>md. py_getitem_str m (ustr ''metadata'') = Inr md \<and>
                      py_getitem_str md (ustr ''text'') = Inr (PStr t))
      (map ?m (take 3 [])) []"
    by simp
  from retrieve_similar_chunks_joins [OF e q g t]
    retrieve_similar_chunks_joins [OF e q g t0]
  show ?thesis by simp
qed

text \<open>
  C6. For every response of the answer service whose status code is not 200,
  \<open>query_gemini\<close> returns the string \<open>Error: \<close> followed by the body of the
  response; it raises nothing.
\<close>

theorem query_gemini_error_string:
  assumes "http_post env (gemini_url env) (gemini_payload query ctxt)
             (PDict [(PStr (ustr ''Content-Type''), PStr (ustr ''application/json''))]) = Inr response"
    and "resp_status_code response \<noteq> 200"
  shows "query_gemini env query ctxt = Inr (PStr (ustr ''Error: '' @ resp_text response))"
  using assms by (simp add: query_gemini_def)

theorem query_gemini_error_string_witness:
  "query_gemini (example_env 5) (ustr ''what is alpha'') (ustr ''alpha'') =
     Inr (PStr (ustr ''Error: '' @ ustr ''unavailable''))"
proof -
  let ?r = "\<lparr>resp_status_code = 503, resp_text = ustr ''unavailable'',
      resp_json = Inl JSONDecodeError :: exn + int pyval\<rparr>"
  have p: "http_post (example_env 5) url payload headers = Inr ?r" for url payload headers
    by (simp add: example_env_def)
  have s: "resp_status_code ?r \<noteq> 200" by simp
  from query_gemini_error_string [OF p s] show ?thesis by simp
qed

section \<open>Claims about ingestion\<close>

lemma upsert_loop_fails_at:
  "upsert_loop env object_id idx pre = (idx_j, None) \<Longrightarrow>
   index_upsert env idx_j [chunk_record env object_id p] = Inl e \<Longrightarrow>
   upsert_loop env object_id idx (pre @ p # post) = (idx_j, Some e)"
proof (induction pre arbitrary: idx)
  case Nil
  then show ?case by simp
next
  case (Cons q pre)
  show ?case
  proof (cases "index_upsert env idx [chunk_record env object_id q]")
    case (Inl e')
    with Cons.prems(1) show ?thesis by simp
  next
    case (Inr idx')
    with Cons.prems have "upsert_loop env object_id idx' pre = (idx_j, None)" by simp
    from Cons.IH [OF this Cons.prems(2)] Inr show ?thesis by simp
  qed
qed

lemma enumerate_zip_split:
  assumes "j < length cs" "j < length es"
  shows "enumerate 0 (zip cs es) =
     take j (enumerate 0 (zip cs es)) @ (j, cs ! j, es ! j) # drop (Suc j) (enumerate 0 (zip cs es))"
proof -
  have "j < length (enumerate 0 (zip cs es))" using assms by simp
  then have "enumerate 0 (zip cs es) = take j (enumerate 0 (zip cs es)) @
      enumerate 0 (zip cs es) ! j # drop (Suc j) (enumerate 0 (zip cs es))"
    by (rule id_take_nth_drop)
  moreover have "enumerate 0 (zip cs es) ! j = (j, cs ! j, es ! j)"
    using assms by (simp add: nth_enumerate_eq)
  ultimately show ?thesis by simp
qed

lemma chunk_text_example_page:
  "chunk_text (join (ustr '' '') [example_page]) 500 = Inr [example_page, ustr ''a'']"
proof -
  have "wordlike (ustr ''a'')" by (simp add: wordlike_def ustr_def isspace_def)
  then have w: "split example_page = replicate 251 (ustr ''a'')"
    unfolding example_page_def by (intro split_join) simp
  have "windows (replicate 251 (ustr ''a'')) 500 250 =
      [replicate 251 (ustr ''a''), [ustr ''a'']]"
    by (simp add: windows_def upt_conv_Cons numeral_2_eq_2 del: upt_Suc)
  then have "map (join (ustr '' '')) (windows (split example_page) 500 250) =
      [example_page, ustr ''a'']"
    unfolding w by (simp add: example_page_def)
  moreover have "chunk_text example_page 500 =
      Inr (map (join (ustr '' '')) (windows (split example_page) 500 250))"
    using chunk_text_windows [of 500 example_page] by simp
  ultimately show ?thesis by simp
qed

text \<open>
  C2. What the handler does on a request body in which \<open>drive_id\<close> or \<open>object_id\<close>
  is missing or empty: the \<open>HTTPException\<close> with status 400 is raised inside the
  \<open>try\<close> block, \<open>except Exception\<close> catches it, and the handler raises an
  \<open>HTTPException\<close> with status 500 in its place. The response has status 500, not
  400, and the index is untouched.
\<close>

theorem missing_ids_status_500:
  assumes "py_get env req_body (PStr (ustr ''drive_id'')) PNone = Inr drive_id"
    and "py_get env req_body (PStr (ustr ''object_id'')) PNone = Inr object_id"
    and "\<not> truthy env drive_id \<or> \<not> truthy env object_id"
  shows "(\<exists>detail. process_onedrive_document env idx (Some req_body) =
            (idx, Inl (HTTPException 500 detail)))
    \<and> http_status (snd (process_onedrive_document env idx (Some req_body))) = 500"
  using assms by (auto simp: process_onedrive_document_def ingest_def http_status_def)

theorem missing_ids_status_500_witness:
  "http_status (snd (process_onedrive_document (example_env 5) []
      (Some (PDict [(PStr (ustr ''object_id''), PStr (ustr ''o'')),
                    (PStr (ustr ''drive_id''), PStr [])])))) = 500
   \<and> http_status (snd (process_onedrive_document (example_env 5) [] (Some (PDict [])))) = 500"
proof -
  let ?b = "PDict [(PStr (ustr ''object_id''), PStr (ustr ''o'')),
                    (PStr (ustr ''drive_id''), PStr [])] :: int pyval"
  have d: "py_get (example_env 5) ?b (PStr (ustr ''drive_id'')) PNone = Inr (PStr [])"
    by (simp add: py_get_def dict_get_def hashable_def key_eq_def key_num_def ustr_def)
  have o: "py_get (example_env 5) ?b (PStr (ustr ''object_id'')) PNone = Inr (PStr (ustr ''o''))"
    by (simp add: py_get_def dict_get_def hashable_def key_eq_def key_num_def ustr_def)
  have t: "\<not> truthy (example_env 5) (PStr []) \<or> \<not> truthy (example_env 5) (PStr (ustr ''o''))"
    by (simp add: truthy_def)
  have e: "py_get (example_env 5) (PDict []) k PNone = Inr (PNone :: int pyval)" if "hashable k" for k
    using that by (simp add: py_get_def dict_get_def)
  have h: "hashable (PStr s :: int pyval)" for s by (simp add: hashable_def)
  have n: "\<not> truthy (example_env 5) PNone \<or> \<not> truthy (example_env 5) PNone"
    by (simp add: truthy_def)
  from missing_ids_status_500 [OF d o t] missing_ids_status_500 [OF e [OF h] e [OF h] n]
  show ?thesis by simp
qed

text \<open>
  C7. During the ingestion of one document, with the request accepted and the document
  loaded and chunked: if embedding the chunks fails, nothing is upserted and the request
  fails with status 500; if the upserts of chunks \<open>0\<close> to \<open>j - 1\<close> succeed, leaving
  the index \<open>idx_j\<close>, and the upsert of chunk \<open>j\<close> fails, the request fails with
  status 500 and the index is left as \<open>idx_j\<close>: the chunks before \<open>j\<close> stay upserted
  and no chunk from \<open>j\<close> on is. The loop runs in chunk order and stops at the first
  failure.
\<close>

theorem ingest_aborts_at_first_failure:
  assumes "py_get env req_body (PStr (ustr ''drive_id'')) PNone = Inr drive_id"
    and "py_get env req_body (PStr (ustr ''object_id'')) PNone = Inr object_id"
    and "truthy env drive_id" and "truthy env object_id"
    and "load_documents env drive_id object_id = Inr pages"
    and "chunk_text (join (ustr '' '') pages) 500 = Inr text_chunks"
  shows "(\<forall>e. embed_text env text_chunks = Inl e \<longrightarrow>
            process_onedrive_document env idx (Some req_body) =
              (idx, Inl (HTTPException 500 (ustr ''Internal Server Error: '' @ str_exn env e))))
    \<and> (\<forall>embeddings j idx_j e.
          embed_text env text_chunks = Inr embeddings \<and>
          j < length text_chunks \<and> j < length embeddings \<and>
          upsert_loop env object_id idx (take j (enumerate 0 (zip text_chunks embeddings))) =
            (idx_j, None) \<and>
          index_upsert env idx_j
            [chunk_record env object_id (j, text_chunks ! j, embeddings ! j)] = Inl e \<longrightarrow>
          process_onedrive_document env idx (Some req_body) =
            (idx_j, Inl (HTTPException 500 (ustr ''Internal Server Error: '' @ str_exn env e))))"
proof (intro conjI allI impI)
  fix e assume "embed_text env text_chunks = Inl e"
  then show "process_onedrive_document env idx (Some req_body) =
      (idx, Inl (HTTPException 500 (ustr ''Internal Server Error: '' @ str_exn env e)))"
    using assms by (simp add: process_onedrive_document_def ingest_def)
next
  fix embeddings j idx_j e
  assume a: "embed_text env text_chunks = Inr embeddings \<and>
          j < length text_chunks \<and> j < length embeddings \<and>
          upsert_loop env object_id idx (take j (enumerate 0 (zip text_chunks embeddings))) =
            (idx_j, None) \<and>
          index_upsert env idx_j
            [chunk_record env object_id (j, text_chunks ! j, embeddings ! j)] = Inl e"
  then have "upsert_loop env object_id idx
      (take j (enumerate 0 (zip text_chunks embeddings)) @ (j, text_chunks ! j, embeddings ! j) #
       drop (Suc j) (enumerate 0 (zip text_chunks embeddings))) = (idx_j, Some e)"
    by (intro upsert_loop_fails_at) simp_all
  then have "upsert_loop env object_id idx (enumerate 0 (zip text_chunks embeddings)) =
      (idx_j, Some e)"
    using enumerate_zip_split [of j text_chunks embeddings] a by simp
  then show "process_onedrive_document env idx (Some req_body) =
      (idx_j, Inl (HTTPException 500 (ustr ''Internal Server Error: '' @ str_exn env e)))"
    using assms a by (simp add: process_onedrive_document_def ingest_def)
qed

theorem ingest_aborts_at_first_failure_witness:
  "process_onedrive_document (example_env 1) []
     (Some (PDict [(PStr (ustr ''drive_id''), PStr (ustr ''d'')),
                   (PStr (ustr ''object_id''), PStr (ustr ''o''))])) =
   ([(ustr ''o'' @ ustr ''_'' @ ustr ''0'', example_page,
      PDict [(PStr (ustr ''text''), PStr example_page)])],
    Inl (HTTPException 500 (ustr ''Internal Server Error: '' @ ustr ''index full'')))"
proof -
  define env where "env = example_env 1"
  define j :: nat where "j = 1"
  let ?b = "PDict [(PStr (ustr ''drive_id''), PStr (ustr ''d'')),
                   (PStr (ustr ''object_id''), PStr (ustr ''o''))] :: int pyval"
  let ?cs = "[example_page, ustr ''a'']"
  let ?r0 = "(ustr ''o'' @ ustr ''_'' @ ustr ''0'', example_page,
      PDict [(PStr (ustr ''text''), PStr example_page)]) :: pystr \<times> pystr \<times> int pyval"
  have d: "py_get env ?b (PStr (ustr ''drive_id'')) PNone = Inr (PStr (ustr ''d''))"
    by (simp add: py_get_def dict_get_def hashable_def key_eq_def key_num_def ustr_def)
  have o: "py_get env ?b (PStr (ustr ''object_id'')) PNone = Inr (PStr (ustr ''o''))"
    by (simp add: py_get_def dict_get_def hashable_def key_eq_def key_num_def ustr_def)
  have td: "truthy env (PStr (ustr ''d''))" and to: "truthy env (PStr (ustr ''o''))"
    by (simp_all add: truthy_def ustr_def)
  have l: "load_documents env (PStr (ustr ''d'')) (PStr (ustr ''o'')) = Inr [example_page]"
    by (simp add: env_def example_env_def)
  have e: "embed_text env ?cs = Inr ?cs"
    by (simp add: embed_text_def env_def example_env_def)
  have r0: "chunk_record env (PStr (ustr ''o'')) (0, example_page, example_page) = ?r0"
    by (simp add: chunk_record_def py_format_def decimal.simps ustr_def)
  have u0: "index_upsert env [] [?r0] = Inr [?r0]"
    by (simp add: env_def example_env_def)
  have "take j (enumerate 0 (zip ?cs ?cs)) = [(0, example_page, example_page)]"
    by (simp add: j_def)
  then have u: "upsert_loop env (PStr (ustr ''o'')) [] (take j (enumerate 0 (zip ?cs ?cs))) =
      ([?r0], None)"
    by (simp add: r0 u0)
  have f: "index_upsert env [?r0]
      [chunk_record env (PStr (ustr ''o'')) (j, ?cs ! j, ?cs ! j)] =
      Inl (External (ustr ''index full''))"
    by (simp add: env_def example_env_def)
  have s: "str_exn env (External (ustr ''index full'')) = ustr ''index full''"
    by (simp add: env_def example_env_def)
  have jl: "j < length ?cs" by (simp add: j_def)
  from ingest_aborts_at_first_failure [OF d o td to l chunk_text_example_page, of "[]"]
  have "embed_text env ?cs = Inr ?cs \<and> j < length ?cs \<and> j < length ?cs \<and>
      upsert_loop env (PStr (ustr ''o'')) [] (take j (enumerate 0 (zip ?cs ?cs))) = ([?r0], None) \<and>
      index_upsert env [?r0] [chunk_record env (PStr (ustr ''o'')) (j, ?cs ! j, ?cs ! j)] =
        Inl (External (ustr ''index full'')) \<longrightarrow>
      process_onedrive_document env [] (Some ?b) =
        ([?r0], Inl (HTTPException 500 (ustr ''Internal Server Error: '' @
           str_exn env (External (ustr ''index full'')))))"
    by blast
  with e u f jl have "process_onedrive_document env [] (Some ?b) =
        ([?r0], Inl (HTTPException 500 (ustr ''Internal Server Error: '' @
           str_exn env (External (ustr ''index full'')))))"
    by blast
  then show ?thesis unfolding s unfolding env_def .
qed

section \<open>Properties of the numbers\<close>

lemma powi2_pos: "0 < (2::rat) powi k"
  by (simp add: zero_less_power_int)

lemma powi2_Suc: "(2::rat) powi (k + 1) = 2 * 2 powi k"
  by (simp add: power_int_add)

lemma powi2_less_iff: "(2::rat) powi i < 2 powi j \<longleftrightarrow> i < j"
  by (metis linorder_not_less one_less_numeral_iff power_int_increasing power_int_strict_increasing
      semiring_norm(76) order_less_imp_le)

lemma powi2_le_iff: "(2::rat) powi i \<le> 2 powi j \<longleftrightarrow> i \<le> j"
  using powi2_less_iff [of j i] by (simp add: not_less [symmetric])

lemma ilog2_unique:
  "0 < a \<Longrightarrow> 2 powi k \<le> a \<Longrightarrow> a < 2 powi (k + 1) \<Longrightarrow> ilog2 a = k"
proof (induction a arbitrary: k rule: ilog2.induct)
  case (1 a)
  show ?case
  proof (cases "2 \<le> a")
    case True
    have p1: "(2::rat) powi k = 2 * 2 powi (k - 1)" using powi2_Suc [of "k - 1"] by simp
    have p2: "(2::rat) powi (k + 1) = 2 * 2 powi k" by (rule powi2_Suc)
    have "2 powi (k - 1) \<le> a / 2" using "1.prems"(2) p1 by simp
    moreover have "a / 2 < 2 powi k" using "1.prems"(3) p2 by simp
    ultimately have "2 powi (k - 1) \<le> a / 2" "a / 2 < 2 powi (k - 1 + 1)" by simp_all
    then have "ilog2 (a / 2) = k - 1"
      using "1.IH"(1) [of "k - 1"] "1.prems"(1) True by simp
    then show ?thesis using True "1.prems"(1) by (subst ilog2.simps) simp
  next
    case False
    show ?thesis
    proof (cases "a < 1")
      case True
      have "2 powi (k + 1) \<le> a * 2" "a * 2 < 2 powi (k + 1 + 1)"
        using "1.prems" powi2_Suc [of k] powi2_Suc [of "k + 1"] by simp_all
      then have "ilog2 (a * 2) = k + 1"
        using "1.IH"(2) [of "k + 1"] "1.prems"(1) False True by simp
      then show ?thesis using False True "1.prems"(1) by (subst ilog2.simps) simp
    next
      case b: False
      have "(2::rat) powi k < 2 powi 1" using "1.prems"(2) False by simp
      then have "k < 1" by (simp only: powi2_less_iff)
      moreover have "(2::rat) powi 0 < 2 powi (k + 1)" using "1.prems"(3) b by simp
      then have "0 < k + 1" by (simp only: powi2_less_iff)
      ultimately have "k = 0" by simp
      then show ?thesis using False b "1.prems"(1) by (subst ilog2.simps) simp
    qed
  qed
qed

lemma ilog2_bounds: "0 < a \<Longrightarrow> 2 powi ilog2 a \<le> a \<and> a < 2 powi (ilog2 a + 1)"
proof (induction a rule: ilog2.induct)
  case (1 a)
  show ?case
  proof (cases "2 \<le> a")
    case True
    then have e: "ilog2 a = ilog2 (a / 2) + 1" using "1.prems" by (subst ilog2.simps) simp
    have "2 powi ilog2 (a / 2) \<le> a / 2 \<and> a / 2 < 2 powi (ilog2 (a / 2) + 1)"
      using "1.IH"(1) "1.prems" True by simp
    then show ?thesis unfolding e powi2_Suc by simp
  next
    case False
    show ?thesis
    proof (cases "a < 1")
      case True
      then have e: "ilog2 (a * 2) = ilog2 a + 1" using "1.prems" False by (subst (2) ilog2.simps) simp
      have "2 powi ilog2 (a * 2) \<le> a * 2 \<and> a * 2 < 2 powi (ilog2 (a * 2) + 1)"
        using "1.IH"(2) "1.prems" False True by simp
      then show ?thesis unfolding e powi2_Suc by simp
    next
      case b: False
      then have "ilog2 a = 0" using "1.prems" False by (subst ilog2.simps) simp
      then show ?thesis using False b by simp
    qed
  qed
qed

lemma round_half_even_of_int: "round_half_even (of_int m) = m"
  by (simp add: round_half_even_def)

lemma round_half_even_tie:
  "round_half_even (of_int f + 1 / 2) = (if even f then f else f + 1)"
proof -
  have "\<lfloor>of_int f + 1 / 2 :: rat\<rfloor> = f" by linarith
  then show ?thesis by (simp add: round_half_even_def)
qed

lemma round_double_0: "round_double 0 = Fin 0"
  by (simp add: round_double_def)

lemma round_double_exact:
  assumes "\<bar>q\<bar> = of_int m * 2 powi (max (ilog2 \<bar>q\<bar> - 52) (- 1074))"
    and "\<bar>q\<bar> < 2 powi 1024"
  shows "round_double q = Fin q"
proof (cases "q = 0")
  case True
  then show ?thesis by (simp add: round_double_0)
next
  case False
  define e where "e = max (ilog2 \<bar>q\<bar> - 52) (- 1074)"
  have q: "\<bar>q\<bar> = of_int m * 2 powi e"
    using assms(1) by (simp add: e_def)
  then have "\<bar>q\<bar> / 2 powi e = of_int m" by simp
  then have r: "of_int (round_half_even (\<bar>q\<bar> / 2 powi e)) * 2 powi e = \<bar>q\<bar>"
    using q by (simp add: round_half_even_of_int)
  have "round_double q =
      (if (2::rat) powi 1024 \<le> of_int (round_half_even (\<bar>q\<bar> / 2 powi e)) * 2 powi e
       then (if 0 < q then PInf else NInf)
       else Fin (if 0 < q then of_int (round_half_even (\<bar>q\<bar> / 2 powi e)) * 2 powi e
                 else - (of_int (round_half_even (\<bar>q\<bar> / 2 powi e)) * 2 powi e)))"
    using False by (simp only: round_double_def Let_def e_def if_False)
  then have "round_double q =
      (if (2::rat) powi 1024 \<le> \<bar>q\<bar> then (if 0 < q then PInf else NInf)
       else Fin (if 0 < q then \<bar>q\<bar> else - \<bar>q\<bar>))"
    by (simp only: r)
  moreover have "\<not> (2::rat) powi 1024 \<le> \<bar>q\<bar>" using assms(2) by (simp only: not_le)
  moreover have "(if 0 < q then \<bar>q\<bar> else - \<bar>q\<bar>) = q" by simp
  ultimately show ?thesis by (simp only: if_False)
qed

lemma round_double_int:
  assumes "\<bar>i\<bar> \<le> 9007199254740992"
  shows "round_double (of_int i) = Fin (of_int i)"
proof (cases "i = 0")
  case True
  then show ?thesis by (simp add: round_double_0)
next
  case False
  define a :: rat where "a = \<bar>of_int i\<bar>"
  define k where "k = ilog2 a"
  have a: "1 \<le> a" "a \<le> 9007199254740992"
    using False assms by (simp_all add: a_def flip: of_int_abs)
  then have b: "2 powi k \<le> a" "a < 2 powi (k + 1)"
    using ilog2_bounds [of a] by (simp_all add: k_def)
  have "(2::rat) powi 0 < 2 powi (k + 1)" using a(1) b(2) by simp
  then have k0: "0 \<le> k" by (simp only: powi2_less_iff)
  have "(2::rat) powi k \<le> 2 powi 53" using a(2) b(1) by simp
  then have k53: "k \<le> 53" by (simp only: powi2_le_iff)
  have ai: "a = of_int \<bar>i\<bar>" by (simp add: a_def)
  have m: "\<exists>m. a = of_int m * 2 powi (k - 52)"
  proof (cases "k = 53")
    case True
    then have "a = 9007199254740992" using a(2) b(1) by simp
    then have "a = of_int 4503599627370496 * 2 powi (k - 52)" using True by simp
    then show ?thesis by blast
  next
    case False
    then have "k \<le> 52" using k53 by simp
    then have "(2::rat) powi (k - 52) = 1 / 2 ^ nat (52 - k)"
      by (simp add: power_int_def field_simps)
    then have "a = of_int (\<bar>i\<bar> * 2 ^ nat (52 - k)) * 2 powi (k - 52)"
      by (simp add: ai)
    then show ?thesis by blast
  qed
  have "max (ilog2 a - 52) (- 1074) = k - 52" using k0 by (simp add: k_def)
  with m obtain m where "\<bar>of_int i :: rat\<bar> = of_int m * 2 powi (max (ilog2 \<bar>of_int i\<bar> - 52) (- 1074))"
    unfolding a_def by auto
  moreover have "\<bar>of_int i :: rat\<bar> < 2 powi 1024" using a(2) by (simp add: a_def)
  ultimately show ?thesis by (rule round_double_exact)
qed

lemma round_double_tie_example:
  "round_double 9007199254740993 = Fin 9007199254740992"
proof -
  have k: "ilog2 9007199254740993 = 53"
    by (rule ilog2_unique) simp_all
  have "(9007199254740993 :: rat) / 2 = of_int 4503599627370496 + 1 / 2" by simp
  then have "round_half_even (9007199254740993 / 2) = 4503599627370496"
    by (simp only: round_half_even_tie) simp
  then show ?thesis
    by (simp add: round_double_def Let_def k)
qed

lemma float_of_int_0: "float_of_int 0 = Inr (Fin 0)"
  by (simp add: float_of_int_def round_double_0)

lemma float_of_int_exact:
  "\<bar>i\<bar> \<le> 9007199254740992 \<Longrightarrow> float_of_int i = Inr (Fin (of_int i))"
  by (simp add: float_of_int_def round_double_int)

section \<open>Properties of dictionaries with string keys\<close>

lemma key_eq_PStr: "key_eq ops k (PStr s) \<longleftrightarrow> k = PStr s"
  by (cases k) (simp_all add: key_eq_def key_num_def)

lemma dict_lookup_PStr: "dict_lookup ops d (PStr s) = map_of d (PStr s)"
  by (induction d) (auto simp: key_eq_PStr)

lemma map_of_dict_update: "map_of (dict_update ops d (PStr s) v) = (map_of d)(PStr s \<mapsto> v)"
  by (induction d) (auto simp: key_eq_PStr fun_eq_iff)

lemma keys_dict_update:
  "map fst (dict_update ops d (PStr s) v) =
   (if PStr s \<in> set (map fst d) then map fst d else map fst d @ [PStr s])"
  by (induction d) (force simp: key_eq_PStr)+

lemma filter_dict_update:
  "filter (\<lambda>p. fst p \<noteq> PStr []) (dict_update ops d (PStr s) v) =
   (if s = [] then filter (\<lambda>p. fst p \<noteq> PStr []) d
    else dict_update ops (filter (\<lambda>p. fst p \<noteq> PStr []) d) (PStr s) v)"
  by (induction d) (auto simp: key_eq_PStr)

lemma map_of_filter_named:
  "k \<noteq> PStr [] \<Longrightarrow> map_of (filter (\<lambda>p. fst p \<noteq> PStr []) d) k = map_of d k"
  by (induction d) auto

lemma py_get_PStr:
  "py_get ops (PDict d) (PStr s) dflt =
   Inr (case map_of d (PStr s) of None \<Rightarrow> dflt | Some v \<Rightarrow> v)"
  by (simp add: py_get_def dict_get_def hashable_def dict_lookup_PStr split: option.splits)

lemma py_get_PDict: "py_get ops obj k dflt = Inr v \<Longrightarrow> \<exists>d. obj = PDict d"
  by (cases obj) (simp_all add: py_get_def)

lemma assoc_by_keys:
  "distinct (map fst d) \<Longrightarrow> \<forall>k\<in>set (map fst d). map_of d k = Some (f k) \<Longrightarrow>
   d = map (\<lambda>k. (k, f k)) (map fst d)"
proof (induction d)
  case Nil
  show ?case by simp
next
  case (Cons p d)
  have "\<forall>k\<in>set (map fst d). map_of d k = Some (f k)"
  proof
    fix k assume k: "k \<in> set (map fst d)"
    moreover have "fst p \<notin> set (map fst d)" using Cons.prems(1) by simp
    ultimately have "k \<noteq> fst p" by blast
    moreover have "k \<in> set (map fst (p # d))" using k by simp
    then have "map_of (p # d) k = Some (f k)" using Cons.prems(2) by blast
    ultimately show "map_of d k = Some (f k)" by (cases p) (simp split: if_splits)
  qed
  then have "d = map (\<lambda>k. (k, f k)) (map fst d)"
    using Cons.IH Cons.prems(1) by simp
  moreover have "fst p \<in> set (map fst (p # d))" by simp
  then have "map_of (p # d) (fst p) = Some (f (fst p))" using Cons.prems(2) by blast
  then have "snd p = f (fst p)" by (cases p) simp
  ultimately show ?case by (cases p) simp
qed

section \<open>Properties of the order of first occurrence\<close>

lemma set_first_seen: "set (first_seen xs) = set xs"
  by (induction xs) auto

lemma distinct_first_seen: "distinct (first_seen xs)"
  by (induction xs) (auto simp: set_first_seen)

lemma filter_first_seen: "filter P (first_seen xs) = first_seen (filter P xs)"
proof (induction xs)
  case Nil
  show ?case by simp
next
  case (Cons x xs)
  have "filter P (filter (\<lambda>y. y \<noteq> x) (first_seen xs)) =
      filter (\<lambda>y. y \<noteq> x) (first_seen (filter P xs))"
    by (simp add: Cons.IH [symmetric] conj_commute)
  moreover have "\<not> P x \<Longrightarrow> filter (\<lambda>y. y \<noteq> x) (first_seen (filter P xs)) =
      first_seen (filter P xs)"
    by (rule filter_True) (auto simp: set_first_seen)
  ultimately show ?case by auto
qed

section \<open>Properties of the aggregation loops\<close>

lemma string_named_get:
  "string_named ops item \<Longrightarrow>
   py_get ops item (PStr (ustr ''application name'')) (PStr []) = Inr (app_name ops item)"
  by (auto simp: string_named_def app_name_def py_get_PStr)

lemma accumulate_PStr:
  "accumulate ops dm (PStr s) x =
     (case num_add ops (case map_of dm (PStr s) of None \<Rightarrow> num_zero ops | Some v \<Rightarrow> v) x of
        Inl e \<Rightarrow> Inl e
      | Inr new \<Rightarrow> Inr (dict_update ops dm (PStr s) new))"
  by (simp add: accumulate_def dict_get_def dict_set_def hashable_def dict_lookup_PStr
      split: option.splits sum.splits)

lemma durations_of_Cons:
  "durations_of ops k (item # items) =
   (if app_name ops item = k then exec_duration ops item # durations_of ops k items
    else durations_of ops k items)"
  by (simp add: durations_of_def)

lemma transform_loop_sums:
  assumes "\<forall>item\<in>set items. string_named ops item"
    and "\<forall>k. \<exists>t. py_sum ops (case map_of dm k of None \<Rightarrow> num_zero ops | Some v \<Rightarrow> v)
                      (durations_of ops k items) = Inr t"
  shows "\<exists>dm'. transform_loop ops dm items = Inr dm' \<and>
    map fst dm' = map fst dm @
      filter (\<lambda>k. k \<notin> set (map fst dm)) (first_seen (map (app_name ops) items)) \<and>
    (\<forall>k. map_of dm' k =
       (if durations_of ops k items = [] then map_of dm k
        else (case py_sum ops (case map_of dm k of None \<Rightarrow> num_zero ops | Some v \<Rightarrow> v)
                     (durations_of ops k items) of
                Inl e \<Rightarrow> None
              | Inr t \<Rightarrow> Some t)))"
  using assms
proof (induction items arbitrary: dm)
  case Nil
  show ?case by (simp add: durations_of_def)
next
  case (Cons item items)
  obtain s where n: "app_name ops item = PStr s"
    using Cons.prems(1) by (auto simp: string_named_def)
  define base where "base = (case map_of dm (PStr s) of None \<Rightarrow> num_zero ops | Some v \<Rightarrow> v)"
  from Cons.prems(2) obtain t where
    "py_sum ops base (durations_of ops (PStr s) (item # items)) = Inr t"
    unfolding base_def by blast
  then obtain c where c: "num_add ops base (exec_duration ops item) = Inr c"
    and ct: "py_sum ops c (durations_of ops (PStr s) items) = Inr t"
    by (auto simp: durations_of_Cons n split: sum.splits)
  define dm1 where "dm1 = dict_update ops dm (PStr s) c"
  have step: "transform_step ops dm item = Inr dm1"
    using Cons.prems(1) c
    by (simp add: transform_step_def string_named_get n accumulate_PStr base_def dm1_def)
  have m1: "map_of dm1 k = (if k = PStr s then Some c else map_of dm k)" for k
    by (simp add: dm1_def map_of_dict_update)
  have sums1: "\<forall>k. \<exists>t. py_sum ops (case map_of dm1 k of None \<Rightarrow> num_zero ops | Some v \<Rightarrow> v)
                      (durations_of ops k items) = Inr t"
  proof
    fix k
    show "\<exists>t. py_sum ops (case map_of dm1 k of None \<Rightarrow> num_zero ops | Some v \<Rightarrow> v)
                      (durations_of ops k items) = Inr t"
    proof (cases "k = PStr s")
      case True
      then show ?thesis using ct by (simp add: m1)
    next
      case False
      then have "PStr s \<noteq> k" by blast
      then show ?thesis using spec [OF Cons.prems(2), of k] n by (simp add: m1 durations_of_Cons)
    qed
  qed
  from Cons.IH [OF _ sums1] Cons.prems(1) obtain dm' where
    l: "transform_loop ops dm1 items = Inr dm'" and
    ks: "map fst dm' = map fst dm1 @
      filter (\<lambda>k. k \<notin> set (map fst dm1)) (first_seen (map (app_name ops) items))" and
    m: "\<And>k. map_of dm' k =
       (if durations_of ops k items = [] then map_of dm1 k
        else (case py_sum ops (case map_of dm1 k of None \<Rightarrow> num_zero ops | Some v \<Rightarrow> v)
                     (durations_of ops k items) of
                Inl e \<Rightarrow> None
              | Inr t \<Rightarrow> Some t))"
    by auto
  have loop: "transform_loop ops dm (item # items) = Inr dm'"
    using step l by simp
  have keys: "map fst dm' = map fst dm @
      filter (\<lambda>k. k \<notin> set (map fst dm)) (first_seen (map (app_name ops) (item # items)))"
  proof (cases "PStr s \<in> set (map fst dm)")
    case True
    then have "map fst dm1 = map fst dm" by (simp add: dm1_def keys_dict_update)
    moreover have "filter (\<lambda>k. k \<notin> set (map fst dm))
        (filter (\<lambda>y. y \<noteq> PStr s) (first_seen (map (app_name ops) items))) =
        filter (\<lambda>k. k \<notin> set (map fst dm)) (first_seen (map (app_name ops) items))"
      using True by (auto intro: filter_cong)
    ultimately show ?thesis using ks True by (simp add: n)
  next
    case False
    then have "map fst dm1 = map fst dm @ [PStr s]" by (simp add: dm1_def keys_dict_update)
    moreover have "filter (\<lambda>k. k \<notin> set (map fst dm @ [PStr s]))
        (first_seen (map (app_name ops) items)) =
        filter (\<lambda>k. k \<notin> set (map fst dm))
          (filter (\<lambda>y. y \<noteq> PStr s) (first_seen (map (app_name ops) items)))"
      by (auto intro: filter_cong)
    ultimately show ?thesis using ks False by (simp add: n)
  qed
  have vals: "map_of dm' k =
       (if durations_of ops k (item # items) = [] then map_of dm k
        else (case py_sum ops (case map_of dm k of None \<Rightarrow> num_zero ops | Some v \<Rightarrow> v)
                     (durations_of ops k (item # items)) of
                Inl e \<Rightarrow> None
              | Inr t \<Rightarrow> Some t))" for k
  proof (cases "k = PStr s")
    case True
    then show ?thesis
      using c by (simp add: m m1 durations_of_Cons n base_def)
  next
    case False
    then show ?thesis
      using n by (simp add: m m1 durations_of_Cons)
  qed
  show ?case by (intro exI [of _ dm'] conjI allI loop keys vals)
qed

lemma summary_loop_named:
  assumes "\<forall>item\<in>set items. string_named ops item"
    and "transform_loop ops dm items = Inr dm'"
  shows "summary_loop ops (filter (\<lambda>p. fst p \<noteq> PStr []) dm) items =
     Inr (filter (\<lambda>p. fst p \<noteq> PStr []) dm')"
  using assms
proof (induction items arbitrary: dm)
  case Nil
  then show ?case by simp
next
  case (Cons item items)
  obtain s where n: "app_name ops item = PStr s"
    using Cons.prems(1) by (auto simp: string_named_def)
  from Cons.prems(2) obtain dm1 where
    step: "transform_step ops dm item = Inr dm1" and l: "transform_loop ops dm1 items = Inr dm'"
    by (auto split: sum.splits)
  have g: "py_get ops item (PStr (ustr ''application name'')) (PStr []) = Inr (PStr s)"
    using Cons.prems(1) n by (simp add: string_named_get)
  have "summary_step ops (filter (\<lambda>p. fst p \<noteq> PStr []) dm) item =
      Inr (filter (\<lambda>p. fst p \<noteq> PStr []) dm1)"
  proof (cases "s = []")
    case True
    have "accumulate ops dm (PStr s) (exec_duration ops item) = Inr dm1"
      using step by (simp add: transform_step_def g)
    then have "filter (\<lambda>p. fst p \<noteq> PStr []) dm1 = filter (\<lambda>p. fst p \<noteq> PStr []) dm"
      using True by (auto simp: accumulate_PStr filter_dict_update split: sum.splits)
    then show ?thesis using True by (simp add: summary_step_def g truthy_def)
  next
    case False
    have a: "accumulate ops dm (PStr s) (exec_duration ops item) = Inr dm1"
      using step by (simp add: transform_step_def g)
    have "accumulate ops (filter (\<lambda>p. fst p \<noteq> PStr []) dm) (PStr s) (exec_duration ops item) =
        Inr (filter (\<lambda>p. fst p \<noteq> PStr []) dm1)"
      using a False
      by (auto simp: accumulate_PStr filter_dict_update map_of_filter_named split: sum.splits)
    then show ?thesis using False by (simp add: summary_step_def g truthy_def)
  qed
  moreover have "summary_loop ops (filter (\<lambda>p. fst p \<noteq> PStr []) dm1) items =
      Inr (filter (\<lambda>p. fst p \<noteq> PStr []) dm')"
    using Cons.IH [OF _ l] Cons.prems(1) by simp
  ultimately show ?case by simp
qed

section \<open>Properties of Python's numbers in the loops\<close>

lemma python_ops_simps:
  "num_zero (python_ops parse) = PyInt 0"
  "num_add (python_ops parse) = py_add"
  "num_finite (python_ops parse) = py_num_finite"
  "float_of_num (python_ops parse) = py_float_of_num"
  "float_of_bool (python_ops parse) = (\<lambda>b. PyFloat (Fin (if b then 1 else 0)))"
  "float_of_str (python_ops parse) =
     (\<lambda>s. case parse s of Inl e \<Rightarrow> Inl e | Inr x \<Rightarrow> Inr (PyFloat x))"
  by (simp_all add: python_ops_def)

lemma py_float_is_float:
  "py_float (python_ops parse) v = Inr x \<Longrightarrow> \<exists>y. x = PyFloat y"
proof (cases v)
  case (PNum n)
  assume "py_float (python_ops parse) v = Inr x"
  then show ?thesis using PNum
    by (cases n) (auto simp: py_float_def python_ops_simps split: sum.splits)
qed (auto simp: py_float_def python_ops_simps split: sum.splits)

lemma exec_duration_zero_or_float: "zero_or_float (exec_duration (python_ops parse) item)"
proof -
  have "exec_duration (python_ops parse) item = PyInt 0 \<or>
      (\<exists>v. py_float (python_ops parse) v = Inr (exec_duration (python_ops parse) item))"
    by (auto simp: exec_duration_def python_ops_simps split: sum.splits)
  then show ?thesis using py_float_is_float by (auto simp: zero_or_float_def)
qed

lemma py_add_zero_or_float:
  assumes "zero_or_float a" and "zero_or_float b"
  shows "\<exists>c. py_add a b = Inr c \<and> zero_or_float c"
  using assms by (auto simp: zero_or_float_def float_of_int_0)

lemma py_sum_zero_or_float:
  "zero_or_float acc \<Longrightarrow> \<forall>x\<in>set xs. zero_or_float x \<Longrightarrow>
   \<exists>t. py_sum (python_ops parse) acc xs = Inr t \<and> zero_or_float t"
proof (induction xs arbitrary: acc)
  case Nil
  then show ?case by simp
next
  case (Cons x xs)
  from py_add_zero_or_float [of acc x] Cons.prems obtain c where
    c: "py_add acc x = Inr c" "zero_or_float c" by auto
  from Cons.IH [OF c(2)] Cons.prems(2) obtain t where
    "py_sum (python_ops parse) c xs = Inr t" "zero_or_float t" by auto
  with c(1) show ?case by (simp add: python_ops_simps)
qed

lemma durations_zero_or_float:
  "\<forall>x\<in>set (durations_of (python_ops parse) k items). zero_or_float x"
  by (auto simp: durations_of_def exec_duration_zero_or_float)

lemma py_sum_durations:
  "\<exists>t. py_sum (python_ops parse) (PyInt 0) (durations_of (python_ops parse) k items) = Inr t"
proof -
  have "zero_or_float (PyInt 0)" by (simp add: zero_or_float_def)
  from py_sum_zero_or_float [OF this durations_zero_or_float] show ?thesis by blast
qed

lemma py_add_exact:
  assumes "zero_or_float a" "zero_or_float b"
    and "num_value a = Some s" "num_value b = Some q"
    and "round_double (s + q) = Fin (s + q)"
  shows "\<exists>c. py_add a b = Inr c \<and> zero_or_float c \<and> num_value c = Some (s + q)"
proof -
  have f: "(n = PyInt 0 \<and> r = 0) \<or> n = PyFloat (Fin r)"
    if "zero_or_float n" "num_value n = Some r" for n r
  proof (cases n)
    case (PyInt i)
    then show ?thesis using that by (simp add: zero_or_float_def)
  next
    case (PyFloat x)
    then show ?thesis using that(2) by (cases x) simp_all
  qed
  from f [OF assms(1,3)] f [OF assms(2,4)] assms(5) show ?thesis
    by (auto simp: zero_or_float_def float_of_int_0)
qed

lemma py_sum_exact:
  assumes "zero_or_float acc" and "\<forall>x\<in>set xs. zero_or_float x"
    and "num_value acc = Some s" and "map num_value xs = map Some qs"
    and "\<forall>n. 0 < n \<and> n \<le> length qs \<longrightarrow>
           round_double (s + sum_list (take n qs)) = Fin (s + sum_list (take n qs))"
  shows "\<exists>t. py_sum (python_ops parse) acc xs = Inr t \<and> num_value t = Some (s + sum_list qs)"
  using assms
proof (induction xs arbitrary: acc s qs)
  case Nil
  then show ?case by simp
next
  case (Cons x xs)
  from Cons.prems(4) obtain q qs' where qs: "qs = q # qs'" and q: "num_value x = Some q"
    and qs': "map num_value xs = map Some qs'"
    by (cases qs) auto
  have "round_double (s + q) = Fin (s + q)"
    using Cons.prems(5) [rule_format, of 1] by (simp add: qs)
  from py_add_exact [OF Cons.prems(1) _ Cons.prems(3) q this] Cons.prems(2) obtain c where
    c: "py_add acc x = Inr c" "zero_or_float c" "num_value c = Some (s + q)" by auto
  have r: "\<forall>n. 0 < n \<and> n \<le> length qs' \<longrightarrow>
      round_double (s + q + sum_list (take n qs')) = Fin (s + q + sum_list (take n qs'))"
  proof (intro allI impI)
    fix n assume "0 < n \<and> n \<le> length qs'"
    then show "round_double (s + q + sum_list (take n qs')) = Fin (s + q + sum_list (take n qs'))"
      using Cons.prems(5) [rule_format, of "Suc n"] by (simp add: qs add.assoc)
  qed
  from Cons.IH [OF c(2) _ c(3) qs' r] Cons.prems(2) obtain t where
    "py_sum (python_ops parse) c xs = Inr t" "num_value t = Some (s + q + sum_list qs')" by auto
  with c(1) show ?case by (simp add: python_ops_simps qs add.assoc)
qed

section \<open>Properties of the rendering\<close>

lemma utf8_literals:
  "utf8_str (ustr ''application name'')" "utf8_str (ustr ''execution duration'')"
  "utf8_str (ustr ''records'')"
  by (simp_all add: utf8_str_def ustr_def)

lemma dumps_error_records:
  assumes "\<forall>k\<in>set names. \<exists>s. k = PStr s"
  shows "dumps_error_list ops
      (map (\<lambda>k. PDict [(PStr (ustr ''application name''), k),
                         (PStr (ustr ''execution duration''), PNum (t k))]) names) =
    (if \<forall>k\<in>set names. num_finite ops (t k) then None else Some ValueError)"
  using assms by (induction names) (auto simp: key_error_def)

lemma utf8_records:
  "utf8_list (map (\<lambda>k. PDict [(PStr (ustr ''application name''), k),
                         (PStr (ustr ''execution duration''), PNum (t k))]) names) =
    (\<forall>k\<in>set names. utf8_value k)"
  by (induction names) (auto simp: utf8_key_def utf8_literals)



section \<open>What the aggregation endpoints return\<close>

lemma durations_of_empty:
  "durations_of ops k items = [] \<longleftrightarrow> k \<notin> set (map (app_name ops) items)"
  by (auto simp: durations_of_def filter_empty_conv)

lemma names_are_strings:
  "\<forall>item\<in>set items. string_named ops item \<Longrightarrow>
   \<forall>k\<in>set (first_seen (map (app_name ops) items)). \<exists>s. k = PStr s"
  by (auto simp: set_first_seen string_named_def)

lemma aggregation_loops:
  assumes "\<forall>item\<in>set items. string_named (python_ops parse) item"
  shows "\<exists>t. (\<forall>k. py_sum (python_ops parse) (PyInt 0)
                   (durations_of (python_ops parse) k items) = Inr (t k)) \<and>
    transform_loop (python_ops parse) [] items =
      Inr (map (\<lambda>k. (k, t k)) (first_seen (map (app_name (python_ops parse)) items))) \<and>
    summary_loop (python_ops parse) [] items =
      Inr (map (\<lambda>k. (k, t k))
        (filter (\<lambda>k. k \<noteq> PStr []) (first_seen (map (app_name (python_ops parse)) items))))"
proof -
  let ?ops = "python_ops parse"
  let ?names = "first_seen (map (app_name ?ops) items)"
  define t where "t k = (case py_sum ?ops (PyInt 0) (durations_of ?ops k items) of
      Inl e \<Rightarrow> PyInt 0 | Inr x \<Rightarrow> x)" for k
  have ts: "py_sum ?ops (PyInt 0) (durations_of ?ops k items) = Inr (t k)" for k
    using py_sum_durations [of parse k items] by (auto simp: t_def)
  have "\<forall>k. \<exists>t. py_sum ?ops (case map_of [] k of None \<Rightarrow> num_zero ?ops | Some v \<Rightarrow> v)
      (durations_of ?ops k items) = Inr t"
    using ts by (simp add: python_ops_simps)
  from transform_loop_sums [OF assms this] obtain dm where
    l: "transform_loop ?ops [] items = Inr dm" and
    ks: "map fst dm = ?names" and
    m: "\<And>k. map_of dm k = (if durations_of ?ops k items = [] then None else Some (t k))"
    by (auto simp: python_ops_simps ts)
  have "distinct (map fst dm)" unfolding ks by (rule distinct_first_seen)
  moreover have "\<forall>k\<in>set (map fst dm). map_of dm k = Some (t k)"
    unfolding ks m by (simp add: durations_of_empty set_first_seen)
  ultimately have "dm = map (\<lambda>k. (k, t k)) (map fst dm)" by (rule assoc_by_keys)
  then have dm: "dm = map (\<lambda>k. (k, t k)) ?names" unfolding ks .
  have "summary_loop ?ops (filter (\<lambda>p. fst p \<noteq> PStr []) []) items =
      Inr (filter (\<lambda>p. fst p \<noteq> PStr []) dm)"
    using assms l by (rule summary_loop_named)
  moreover have "filter (\<lambda>p. fst p \<noteq> PStr []) (map (\<lambda>k. (k, t k)) ?names) =
      map (\<lambda>k. (k, t k)) (filter (\<lambda>k. k \<noteq> PStr []) ?names)"
    by (simp add: filter_map o_def)
  ultimately have s: "summary_loop ?ops [] items =
      Inr (map (\<lambda>k. (k, t k)) (filter (\<lambda>k. k \<noteq> PStr []) ?names))"
    by (simp add: dm)
  show ?thesis
    using ts l s unfolding dm by (intro exI [of _ t] conjI allI)
qed

lemma JSONResponse_records:
  assumes "\<forall>k\<in>set names. \<exists>s. k = PStr s"
  shows "JSONResponse ops
      (PDict [(PStr (ustr ''records''),
         PList (map (\<lambda>k. PDict [(PStr (ustr ''application name''), k),
                                  (PStr (ustr ''execution duration''), PNum (t k))]) names))])
      200 =
    (if \<exists>k\<in>set names. \<not> num_finite ops (t k) then Inl ValueError
     else if \<exists>k\<in>set names. \<not> utf8_value k then Inl UnicodeEncodeError
     else Inr \<lparr>content = PDict [(PStr (ustr ''records''),
         PList (map (\<lambda>k. PDict [(PStr (ustr ''application name''), k),
                                  (PStr (ustr ''execution duration''), PNum (t k))]) names))],
       status_code = 200\<rparr>)"
  by (simp add: JSONResponse_def key_error_def dumps_error_records [OF assms] utf8_records
      utf8_key_def utf8_literals)


lemma aggregation_responses:
  assumes "py_get (python_ops parse) req_body (PStr (ustr ''body'')) (PList []) = Inr (PList items)"
    and "\<forall>item\<in>set items. string_named (python_ops parse) item"
  shows "\<exists>t. (\<forall>k. py_sum (python_ops parse) (PyInt 0)
                   (durations_of (python_ops parse) k items) = Inr (t k)) \<and>
    datatransformation (python_ops parse) (Some req_body) =
      JSONResponse (python_ops parse)
        (PDict [(PStr (ustr ''records''),
           PList (map (\<lambda>k. PDict [(PStr (ustr ''application name''), k),
                                    (PStr (ustr ''execution duration''), PNum (t k))])
                  (first_seen (map (app_name (python_ops parse)) items))))])
        200 \<and>
    datatransformation_summary (python_ops parse) (Some req_body) =
      JSONResponse (python_ops parse)
        (PDict (map (\<lambda>k. (k, PNum (t k)))
           (filter (\<lambda>k. k \<noteq> PStr []) (first_seen (map (app_name (python_ops parse)) items)))))
        200 \<and>
    datatransformation_summary (python_ops parse) (Some (PList items)) =
      JSONResponse (python_ops parse)
        (PDict (map (\<lambda>k. (k, PNum (t k)))
           (filter (\<lambda>k. k \<noteq> PStr []) (first_seen (map (app_name (python_ops parse)) items)))))
        200"
proof -
  from aggregation_loops [OF assms(2)] obtain t where
    ts: "\<forall>k. py_sum (python_ops parse) (PyInt 0)
                   (durations_of (python_ops parse) k items) = Inr (t k)" and
    l: "transform_loop (python_ops parse) [] items =
      Inr (map (\<lambda>k. (k, t k)) (first_seen (map (app_name (python_ops parse)) items)))" and
    s: "summary_loop (python_ops parse) [] items =
      Inr (map (\<lambda>k. (k, t k))
        (filter (\<lambda>k. k \<noteq> PStr []) (first_seen (map (app_name (python_ops parse)) items))))"
    by blast
  from py_get_PDict [OF assms(1)] obtain d where b: "req_body = PDict d" by blast
  have 1: "datatransformation (python_ops parse) (Some req_body) =
      JSONResponse (python_ops parse)
        (PDict [(PStr (ustr ''records''),
           PList (map (\<lambda>k. PDict [(PStr (ustr ''application name''), k),
                                    (PStr (ustr ''execution duration''), PNum (t k))])
                  (first_seen (map (app_name (python_ops parse)) items))))])
        200"
    using assms(1) l by (simp add: datatransformation_def py_iter_def processed_data_def o_def)
  have 2: "datatransformation_summary (python_ops parse) (Some req_body) =
      JSONResponse (python_ops parse)
        (PDict (map (\<lambda>k. (k, PNum (t k)))
           (filter (\<lambda>k. k \<noteq> PStr []) (first_seen (map (app_name (python_ops parse)) items)))))
        200"
    using assms(1) s
    by (simp add: datatransformation_summary_def b py_iter_def summary_content_def o_def)
  have 3: "datatransformation_summary (python_ops parse) (Some (PList items)) =
      JSONResponse (python_ops parse)
        (PDict (map (\<lambda>k. (k, PNum (t k)))
           (filter (\<lambda>k. k \<noteq> PStr []) (first_seen (map (app_name (python_ops parse)) items)))))
        200"
    using s by (simp add: datatransformation_summary_def py_iter_def summary_content_def o_def)
  show ?thesis by (intro exI [of _ t] conjI ts 1 2 3)
qed

section \<open>The example records\<close>

lemma round_double_numeral:
  "numeral n \<le> (9007199254740992::int) \<Longrightarrow> round_double (numeral n) = Fin (numeral n)"
  using round_double_int [of "numeral n"] by simp

lemma map_filter_by_key:
  "map g (filter (\<lambda>x. f x = k) xs) =
   map snd (filter (\<lambda>p. fst p = k) (zip (map f xs) (map g xs)))"
  by (induction xs) auto

lemma durations_of_zip:
  "durations_of ops k items =
   map snd (filter (\<lambda>p. fst p = k) (zip (map (app_name ops) items) (map (exec_duration ops) items)))"
  unfolding durations_of_def by (rule map_filter_by_key)

lemmas record_eval = app_name_def exec_duration_def py_get_PStr py_float_def python_ops_simps
  float_of_int_exact float_of_int_0 ustr_def

lemma example_records_names:
  "map (app_name (python_ops example_parse)) example_records =
     [PStr (ustr ''a''), PStr (ustr ''b''), PStr (ustr ''a''), PStr [], PStr (ustr ''a''), PStr []]"
  by (simp add: example_records_def record_eval)

lemma example_records_durations:
  "map (exec_duration (python_ops example_parse)) example_records =
     [PyFloat (Fin 3), PyFloat (Fin 4), PyInt 0, PyFloat (Fin 7), PyFloat (Fin 5), PyFloat (Fin 0)]"
  by (simp add: example_records_def record_eval example_parse_def round_double_numeral)

lemma rounding_records_names:
  "map (app_name (python_ops example_parse)) rounding_records =
     [PStr (ustr ''a''), PStr (ustr ''a''), PStr (ustr ''a'')]"
  by (simp add: rounding_records_def record_eval)

lemma rounding_records_durations:
  "map (exec_duration (python_ops example_parse)) rounding_records =
     [PyFloat (Fin 9007199254740992), PyFloat (Fin 1), PyFloat (Fin (- 9007199254740992))]"
  by (simp add: rounding_records_def record_eval)

lemma nan_records_names:
  "map (app_name (python_ops example_parse)) nan_records = [PStr (ustr ''a'')]"
  by (simp add: nan_records_def record_eval)

lemma nan_records_durations:
  "map (exec_duration (python_ops example_parse)) nan_records = [PyFloat NaN]"
  by (simp add: nan_records_def record_eval example_parse_def)

lemma string_named_by_names:
  assumes "\<forall>item\<in>set items. \<exists>d. item = PDict d"
    and "\<forall>k\<in>set (map (app_name ops) items). \<exists>s. k = PStr s"
  shows "\<forall>item\<in>set items. string_named ops item"
  using assms by (auto simp: string_named_def)

lemma example_records_string_named:
  "\<forall>item\<in>set example_records. string_named (python_ops example_parse) item"
  by (rule string_named_by_names) (simp_all add: example_records_names, simp add: example_records_def)

lemma rounding_records_string_named:
  "\<forall>item\<in>set rounding_records. string_named (python_ops example_parse) item"
  by (rule string_named_by_names) (simp_all add: rounding_records_names, simp add: rounding_records_def)

lemma nan_records_string_named:
  "\<forall>item\<in>set nan_records. string_named (python_ops example_parse) item"
  by (rule string_named_by_names) (simp_all add: nan_records_names, simp add: nan_records_def)

lemma example_records_sums:
  "py_sum (python_ops example_parse) (PyInt 0)
     (durations_of (python_ops example_parse) (PStr (ustr ''a'')) example_records) =
     Inr (PyFloat (Fin 8))"
  "py_sum (python_ops example_parse) (PyInt 0)
     (durations_of (python_ops example_parse) (PStr (ustr ''b'')) example_records) =
     Inr (PyFloat (Fin 4))"
  "py_sum (python_ops example_parse) (PyInt 0)
     (durations_of (python_ops example_parse) (PStr []) example_records) =
     Inr (PyFloat (Fin 7))"
  unfolding durations_of_zip example_records_names example_records_durations
  by (simp_all add: ustr_def python_ops_simps float_of_int_0 round_double_numeral)

lemma rounding_records_sum:
  "py_sum (python_ops example_parse) (PyInt 0)
     (durations_of (python_ops example_parse) (PStr (ustr ''a'')) rounding_records) =
     Inr (PyFloat (Fin 0))"
  unfolding durations_of_zip rounding_records_names rounding_records_durations
  by (simp add: python_ops_simps float_of_int_0 round_double_numeral round_double_tie_example
      round_double_0)

lemma nan_records_sum:
  "py_sum (python_ops example_parse) (PyInt 0)
     (durations_of (python_ops example_parse) (PStr (ustr ''a'')) nan_records) =
     Inr (PyFloat NaN)"
  unfolding durations_of_zip nan_records_names nan_records_durations
  by (simp add: python_ops_simps float_of_int_0)

lemma example_body:
  "py_get ops (PDict [(PStr (ustr ''body''), PList xs)]) (PStr (ustr ''body'')) (PList []) =
   Inr (PList xs)"
  by (simp add: py_get_PStr)

section \<open>Properties of the keys of a dictionary\<close>

text \<open>
  The integer \<open>1\<close>, the float \<open>1.0\<close> and \<open>True\<close> are one key of \<open>duration_map\<close>,
  which keeps the key it saw first; the string \<open>"1"\<close> is another key.
\<close>

lemma equal_keys_share_an_entry:
  "accumulate (python_ops parse) [(PNum (PyInt 1), PyFloat (Fin 2))] (PBool True) (PyFloat (Fin 3)) =
     Inr [(PNum (PyInt 1), PyFloat (Fin 5))]"
  "accumulate (python_ops parse) [(PNum (PyInt 1), PyFloat (Fin 2))] (PNum (PyFloat (Fin 1)))
     (PyFloat (Fin 3)) = Inr [(PNum (PyInt 1), PyFloat (Fin 5))]"
  "accumulate (python_ops parse) [(PNum (PyInt 1), PyFloat (Fin 2))] (PStr (ustr ''1''))
     (PyFloat (Fin 3)) =
     Inr [(PNum (PyInt 1), PyFloat (Fin 2)), (PStr (ustr ''1''), PyFloat (Fin 3))]"
  by (simp_all add: accumulate_def dict_get_def dict_set_def hashable_def key_eq_def key_num_def
      python_ops_def round_double_numeral float_of_int_0 ustr_def)

section \<open>Claims about the aggregation endpoints\<close>

text \<open>
  C8 (amended). For every list of input records that are JSON objects whose application
  name is a string or is missing (a missing name reads as the empty string),
  \<open>/datatransformation\<close> computes one total per distinct application name, in the
  order in which the names first appear. The total of a name is \<open>0 + d1 + d2 + ...\<close>,
  taken from left to right in Python's arithmetic, where every addition of two doubles
  is rounded to the nearest double; the \<open>d\<close>s are the \<open>float(...)\<close> of the durations of
  exactly the records with that name, in their order. A record whose duration does not
  convert contributes the integer \<open>0\<close> and a record with no duration \<open>float(0)\<close>.
  The endpoint answers 200 with exactly these entries when every total is finite and
  every name can be encoded in UTF-8; it raises \<open>ValueError\<close> when some total is
  infinite or not a number, and \<open>UnicodeEncodeError\<close> when, the totals being finite,
  some name holds a lone surrogate. The total of a name is the arithmetic sum of its
  durations whenever these are finite and every partial sum is a double.
\<close>

theorem datatransformation_totals:
  assumes "py_get (python_ops parse) req_body (PStr (ustr ''body'')) (PList []) = Inr (PList items)"
    and "\<forall>item\<in>set items. string_named (python_ops parse) item"
  shows "\<exists>t c.
      c = PDict [(PStr (ustr ''records''),
            PList (map (\<lambda>k. PDict [(PStr (ustr ''application name''), k),
                                     (PStr (ustr ''execution duration''), PNum (t k))])
                   (first_seen (map (app_name (python_ops parse)) items))))]
    \<and> (\<forall>k. py_sum (python_ops parse) (PyInt 0)
              (durations_of (python_ops parse) k items) = Inr (t k))
    \<and> datatransformation (python_ops parse) (Some req_body) =
        (if \<exists>item\<in>set items. \<not> py_num_finite (t (app_name (python_ops parse) item))
         then Inl ValueError
         else if \<exists>item\<in>set items. \<not> utf8_value (app_name (python_ops parse) item)
         then Inl UnicodeEncodeError
         else Inr \<lparr>content = c, status_code = 200\<rparr>)
    \<and> (\<forall>k qs.
          map num_value (durations_of (python_ops parse) k items) = map Some qs \<and>
          (\<forall>n. 0 < n \<and> n \<le> length qs \<longrightarrow>
               round_double (sum_list (take n qs)) = Fin (sum_list (take n qs))) \<longrightarrow>
          num_value (t k) = Some (sum_list qs))
    \<and> (\<forall>item v e.
          py_get (python_ops parse) item (PStr (ustr ''execution duration'')) (PNum (PyInt 0)) =
            Inr v \<and>
          py_float (python_ops parse) v = Inl e \<longrightarrow>
          exec_duration (python_ops parse) item = PyInt 0)
    \<and> (\<forall>d. map_of d (PStr (ustr ''execution duration'')) = None \<longrightarrow>
          exec_duration (python_ops parse) (PDict d) = PyFloat (Fin 0))"
proof -
  let ?ops = "python_ops parse"
  let ?names = "first_seen (map (app_name ?ops) items)"
  from aggregation_responses [OF assms] obtain t where
    ts: "\<forall>k. py_sum ?ops (PyInt 0) (durations_of ?ops k items) = Inr (t k)" and
    r: "datatransformation ?ops (Some req_body) =
      JSONResponse ?ops
        (PDict [(PStr (ustr ''records''),
           PList (map (\<lambda>k. PDict [(PStr (ustr ''application name''), k),
                                    (PStr (ustr ''execution duration''), PNum (t k))])
                  ?names))])
        200"
    by blast
  define c where "c = PDict [(PStr (ustr ''records''),
            PList (map (\<lambda>k. PDict [(PStr (ustr ''application name''), k),
                                     (PStr (ustr ''execution duration''), PNum (t k))])
                   ?names))]"
  have q: "(\<exists>k\<in>set ?names. P k) \<longleftrightarrow> (\<exists>item\<in>set items. P (app_name ?ops item))" for P
    by (auto simp: set_first_seen)
  have 1: "datatransformation ?ops (Some req_body) =
        (if \<exists>item\<in>set items. \<not> py_num_finite (t (app_name ?ops item)) then Inl ValueError
         else if \<exists>item\<in>set items. \<not> utf8_value (app_name ?ops item) then Inl UnicodeEncodeError
         else Inr \<lparr>content = c, status_code = 200\<rparr>)"
    unfolding r JSONResponse_records [OF names_are_strings [OF assms(2)]] q c_def
    by (simp add: python_ops_simps)
  have 2: "\<forall>k qs.
          map num_value (durations_of ?ops k items) = map Some qs \<and>
          (\<forall>n. 0 < n \<and> n \<le> length qs \<longrightarrow>
               round_double (sum_list (take n qs)) = Fin (sum_list (take n qs))) \<longrightarrow>
          num_value (t k) = Some (sum_list qs)"
  proof (intro allI impI)
    fix k qs
    assume a: "map num_value (durations_of ?ops k items) = map Some qs \<and>
          (\<forall>n. 0 < n \<and> n \<le> length qs \<longrightarrow>
               round_double (sum_list (take n qs)) = Fin (sum_list (take n qs)))"
    have z: "zero_or_float (PyInt 0)" "num_value (PyInt 0) = Some 0"
      by (simp_all add: zero_or_float_def)
    from a have "\<forall>n. 0 < n \<and> n \<le> length qs \<longrightarrow>
        round_double (0 + sum_list (take n qs)) = Fin (0 + sum_list (take n qs))"
      by simp
    from py_sum_exact [OF z(1) durations_zero_or_float z(2) conjunct1 [OF a] this, of parse]
    show "num_value (t k) = Some (sum_list qs)" using ts by auto
  qed
  have 3: "\<forall>item v e.
          py_get ?ops item (PStr (ustr ''execution duration'')) (PNum (PyInt 0)) = Inr v \<and>
          py_float ?ops v = Inl e \<longrightarrow> exec_duration ?ops item = PyInt 0"
    by (simp add: exec_duration_def python_ops_simps)
  have 4: "\<forall>d. map_of d (PStr (ustr ''execution duration'')) = None \<longrightarrow>
          exec_duration ?ops (PDict d) = PyFloat (Fin 0)"
    by (simp add: exec_duration_def py_get_PStr py_float_def python_ops_simps float_of_int_0)
  show ?thesis
    by (intro exI [of _ t] exI [of _ c] conjI c_def ts 1 2 3 4)
qed

theorem datatransformation_totals_witness:
  "datatransformation (python_ops example_parse)
     (Some (PDict [(PStr (ustr ''body''), PList example_records)])) =
   Inr \<lparr>content = PDict [(PStr (ustr ''records''), PList
           [PDict [(PStr (ustr ''application name''), PStr (ustr ''a'')),
                   (PStr (ustr ''execution duration''), PNum (PyFloat (Fin 8)))],
            PDict [(PStr (ustr ''application name''), PStr (ustr ''b'')),
                   (PStr (ustr ''execution duration''), PNum (PyFloat (Fin 4)))],
            PDict [(PStr (ustr ''application name''), PStr []),
                   (PStr (ustr ''execution duration''), PNum (PyFloat (Fin 7)))]])],
        status_code = 200\<rparr>"
proof -
  let ?ops = "python_ops example_parse"
  from datatransformation_totals [OF example_body example_records_string_named]
  obtain t c where
    c: "c = PDict [(PStr (ustr ''records''),
            PList (map (\<lambda>k. PDict [(PStr (ustr ''application name''), k),
                                     (PStr (ustr ''execution duration''), PNum (t k))])
                   (first_seen (map (app_name ?ops) example_records))))]" and
    ts: "\<And>k. py_sum ?ops (PyInt 0) (durations_of ?ops k example_records) = Inr (t k)" and
    r: "datatransformation ?ops (Some (PDict [(PStr (ustr ''body''), PList example_records)])) =
        (if \<exists>item\<in>set example_records. \<not> py_num_finite (t (app_name ?ops item))
         then Inl ValueError
         else if \<exists>item\<in>set example_records. \<not> utf8_value (app_name ?ops item)
         then Inl UnicodeEncodeError
         else Inr \<lparr>content = c, status_code = 200\<rparr>)"
    by blast
  have t: "t (PStr (ustr ''a'')) = PyFloat (Fin 8)" "t (PStr (ustr ''b'')) = PyFloat (Fin 4)"
    "t (PStr []) = PyFloat (Fin 7)"
    using ts [of "PStr (ustr ''a'')"] ts [of "PStr (ustr ''b'')"] ts [of "PStr []"]
    by (simp_all add: example_records_sums)
  have n: "first_seen (map (app_name ?ops) example_records) =
      [PStr (ustr ''a''), PStr (ustr ''b''), PStr []]"
    unfolding example_records_names by (simp add: ustr_def)
  have "\<forall>k\<in>set (map (app_name ?ops) example_records). py_num_finite (t k) \<and> utf8_value k"
    unfolding example_records_names using t by (simp add: utf8_str_def ustr_def)
  then have f: "\<forall>item\<in>set example_records.
      py_num_finite (t (app_name ?ops item)) \<and> utf8_value (app_name ?ops item)"
    by simp
  from f have f1: "\<not> (\<exists>item\<in>set example_records. \<not> py_num_finite (t (app_name ?ops item)))"
    by blast
  from f have f2: "\<not> (\<exists>item\<in>set example_records. \<not> utf8_value (app_name ?ops item))"
    by blast
  show ?thesis
    unfolding r if_not_P [OF f1] if_not_P [OF f2] c n
    using t by (simp add: ustr_def)
qed

text \<open>
  C8 as stated fails in two ways. The three durations \<open>2 ^ 53\<close>, \<open>1\<close> and \<open>- 2 ^ 53\<close>
  of one application have the arithmetic sum \<open>1\<close>, and the endpoint returns the total
  \<open>0.0\<close>: the second addition rounds \<open>2 ^ 53 + 1\<close> to \<open>2 ^ 53\<close>. And for one record
  whose duration is the string \<open>nan\<close> the endpoint returns no total at all: the total
  is not a number and rendering the response raises \<open>ValueError\<close>.
\<close>

theorem datatransformation_totals_counterexample:
  "datatransformation (python_ops example_parse)
     (Some (PDict [(PStr (ustr ''body''), PList rounding_records)])) =
   Inr \<lparr>content = PDict [(PStr (ustr ''records''), PList
           [PDict [(PStr (ustr ''application name''), PStr (ustr ''a'')),
                   (PStr (ustr ''execution duration''), PNum (PyFloat (Fin 0)))]])],
        status_code = 200\<rparr>
   \<and> map num_value (map (exec_duration (python_ops example_parse)) rounding_records) =
       [Some 9007199254740992, Some 1, Some (- 9007199254740992)]
   \<and> datatransformation (python_ops example_parse)
     (Some (PDict [(PStr (ustr ''body''), PList nan_records)])) = Inl ValueError"
proof -
  let ?ops = "python_ops example_parse"
  from aggregation_responses [OF example_body rounding_records_string_named]
  obtain t where
    ts: "\<And>k. py_sum ?ops (PyInt 0) (durations_of ?ops k rounding_records) = Inr (t k)" and
    r: "datatransformation ?ops (Some (PDict [(PStr (ustr ''body''), PList rounding_records)])) =
      JSONResponse ?ops
        (PDict [(PStr (ustr ''records''),
           PList (map (\<lambda>k. PDict [(PStr (ustr ''application name''), k),
                                    (PStr (ustr ''execution duration''), PNum (t k))])
                  (first_seen (map (app_name ?ops) rounding_records))))])
        200"
    by blast
  have t: "t (PStr (ustr ''a'')) = PyFloat (Fin 0)"
    using ts [of "PStr (ustr ''a'')"] by (simp add: rounding_records_sum)
  have n: "first_seen (map (app_name ?ops) rounding_records) = [PStr (ustr ''a'')]"
    unfolding rounding_records_names by simp
  have s: "\<forall>k\<in>set [PStr (ustr ''a'') :: pynum pyval]. \<exists>s. k = PStr s" by simp
  have 1: "datatransformation ?ops (Some (PDict [(PStr (ustr ''body''), PList rounding_records)])) =
   Inr \<lparr>content = PDict [(PStr (ustr ''records''), PList
           [PDict [(PStr (ustr ''application name''), PStr (ustr ''a'')),
                   (PStr (ustr ''execution duration''), PNum (PyFloat (Fin 0)))]])],
        status_code = 200\<rparr>"
    unfolding r n JSONResponse_records [OF s]
    using t by (simp add: python_ops_simps utf8_str_def ustr_def)
  from aggregation_responses [OF example_body nan_records_string_named]
  obtain u where
    us: "\<And>k. py_sum ?ops (PyInt 0) (durations_of ?ops k nan_records) = Inr (u k)" and
    r': "datatransformation ?ops (Some (PDict [(PStr (ustr ''body''), PList nan_records)])) =
      JSONResponse ?ops
        (PDict [(PStr (ustr ''records''),
           PList (map (\<lambda>k. PDict [(PStr (ustr ''application name''), k),
                                    (PStr (ustr ''execution duration''), PNum (u k))])
                  (first_seen (map (app_name ?ops) nan_records))))])
        200"
    by blast
  have u: "u (PStr (ustr ''a'')) = PyFloat NaN"
    using us [of "PStr (ustr ''a'')"] by (simp add: nan_records_sum)
  have n': "first_seen (map (app_name ?ops) nan_records) = [PStr (ustr ''a'')]"
    unfolding nan_records_names by simp
  have 2: "datatransformation ?ops (Some (PDict [(PStr (ustr ''body''), PList nan_records)])) =
      Inl ValueError"
    unfolding r' n' JSONResponse_records [OF s]
    using u by (simp add: python_ops_simps ustr_def)
  have 3: "map num_value (map (exec_duration ?ops) rounding_records) =
       [Some 9007199254740992, Some 1, Some (- 9007199254740992)]"
    unfolding rounding_records_durations by simp
  show ?thesis by (intro conjI 1 2 3)
qed





end
